theory Spec2Isabelle
  imports Main
begin

section \<open>The Python library functions that gencal calls\<close>

text \<open>
  The template tag \<^verbatim>\<open>gencal\<close> (src/templatetags/gencal.py) is written against Python's
  \<^verbatim>\<open>datetime\<close> and \<^verbatim>\<open>calendar\<close> modules.  They are not part of the repository; this
  section gives the part of their behaviour the tag relies on, following the reference
  implementation of \<^verbatim>\<open>datetime\<close> (proleptic Gregorian ordinals, day 1 is 0001-01-01).
  Every exception the tag can meet is a constructor of \<open>error\<close>, and a computation that may
  raise returns \<open>error + 'a\<close> with \<open>Inl\<close> for the exception.
\<close>

datatype error =
    KeyError | AttributeError | ValueError | IllegalMonthError | OverflowError | AssertionError

definition ebind :: "error + 'a \<Rightarrow> ('a \<Rightarrow> error + 'b) \<Rightarrow> error + 'b" where
  "ebind r f = (case r of Inl e \<Rightarrow> Inl e | Inr x \<Rightarrow> f x)"

text \<open>A \<^verbatim>\<open>datetime.date\<close>: three integer attributes.\<close>

record date =
  year :: int
  month :: int
  day :: int

definition MINYEAR :: int where "MINYEAR = 1"
definition MAXYEAR :: int where "MAXYEAR = 9999"
definition MAXORDINAL :: int where "MAXORDINAL = 3652059"

definition DAYS_IN_MONTH :: "int list" where
  "DAYS_IN_MONTH = [-1, 31, 28, 31, 30, 31, 30, 31, 31, 30, 31, 30, 31]"

definition DAYS_BEFORE_MONTH :: "int list" where
  "DAYS_BEFORE_MONTH = [-1, 0, 31, 59, 90, 120, 151, 181, 212, 243, 273, 304, 334]"

definition is_leap :: "int \<Rightarrow> bool" where
  "is_leap y = (y mod 4 = 0 \<and> (y mod 100 \<noteq> 0 \<or> y mod 400 = 0))"

definition days_before_year :: "int \<Rightarrow> int" where
  "days_before_year y = (let y1 = y - 1 in y1 * 365 + y1 div 4 - y1 div 100 + y1 div 400)"

text \<open>\<^verbatim>\<open>_days_in_month\<close> of \<^verbatim>\<open>datetime\<close>, here \<open>lib_days_in_month\<close>.\<close>

definition lib_days_in_month :: "int \<Rightarrow> int \<Rightarrow> int" where
  "lib_days_in_month y m = (if m = 2 \<and> is_leap y then 29 else DAYS_IN_MONTH ! nat m)"

definition days_before_month :: "int \<Rightarrow> int \<Rightarrow> int" where
  "days_before_month y m =
     DAYS_BEFORE_MONTH ! nat m + (if m > 2 \<and> is_leap y then 1 else 0)"

definition ymd2ord :: "int \<Rightarrow> int \<Rightarrow> int \<Rightarrow> int" where
  "ymd2ord y m d = days_before_year y + days_before_month y m + d"

definition DI400Y :: int where "DI400Y = 146097"
definition DI100Y :: int where "DI100Y = 36524"
definition DI4Y :: int where "DI4Y = 1461"

text \<open>
  \<^verbatim>\<open>_ord2ymd\<close>: the date of an ordinal.  The estimate \<^verbatim>\<open>(n + 50) >> 5\<close> of the month is
  either exact or one too large, and is corrected by the comparison with \<open>preceding\<close>.
\<close>

definition ord2ymd :: "int \<Rightarrow> date" where
  "ord2ymd ordinal =
    (let n = ordinal - 1;
         n400 = n div DI400Y; n = n mod DI400Y;
         y = n400 * 400 + 1;
         n100 = n div DI100Y; n = n mod DI100Y;
         n4 = n div DI4Y; n = n mod DI4Y;
         n1 = n div 365; n = n mod 365;
         y = y + n100 * 100 + n4 * 4 + n1
     in if n1 = 4 \<or> n100 = 4 then \<lparr>year = y - 1, month = 12, day = 31\<rparr>
        else
          let leapyear = (n1 = 3 \<and> (n4 \<noteq> 24 \<or> n100 = 3));
              m = (n + 50) div 32;
              preceding = DAYS_BEFORE_MONTH ! nat m + (if m > 2 \<and> leapyear then 1 else 0)
          in if preceding > n
             then let m = m - 1;
                      preceding = preceding -
                        (DAYS_IN_MONTH ! nat m + (if m = 2 \<and> leapyear then 1 else 0))
                  in \<lparr>year = y, month = m, day = n - preceding + 1\<rparr>
             else \<lparr>year = y, month = m, day = n - preceding + 1\<rparr>)"

text \<open>
  \<^verbatim>\<open>datetime.date(y, m, d)\<close> takes its three arguments as C ints: a value that does not
  fit raises \<^verbatim>\<open>OverflowError\<close>.  Then it checks the fields, year first, and raises
  \<^verbatim>\<open>ValueError\<close>.
\<close>

definition fits_c_int :: "int \<Rightarrow> bool" where
  "fits_c_int x = (- 2147483648 \<le> x \<and> x \<le> 2147483647)"

definition datetime_date :: "int \<Rightarrow> int \<Rightarrow> int \<Rightarrow> error + date" where
  "datetime_date y m d =
    (if \<not> (fits_c_int y \<and> fits_c_int m \<and> fits_c_int d) then Inl OverflowError
     else if \<not> (MINYEAR \<le> y \<and> y \<le> MAXYEAR) then Inl ValueError
     else if \<not> (1 \<le> m \<and> m \<le> 12) then Inl ValueError
     else if \<not> (1 \<le> d \<and> d \<le> lib_days_in_month y m) then Inl ValueError
     else Inr \<lparr>year = y, month = m, day = d\<rparr>)"

definition toordinal :: "date \<Rightarrow> int" where
  "toordinal dt = ymd2ord (year dt) (month dt) (day dt)"

definition fromordinal :: "int \<Rightarrow> date" where
  "fromordinal n = ord2ymd n"

text \<open>\<^verbatim>\<open>date.weekday()\<close>: Monday is 0, Sunday is 6.\<close>

definition weekday :: "date \<Rightarrow> int" where
  "weekday dt = (toordinal dt + 6) mod 7"

text \<open>
  A \<^verbatim>\<open>datetime.timedelta(n)\<close> is held as its number of days.  \<^verbatim>\<open>date + timedelta\<close> raises
  \<^verbatim>\<open>OverflowError\<close> when the result leaves 0001-01-01 .. 9999-12-31; \<^verbatim>\<open>date - timedelta\<close>
  adds the negated difference.
\<close>

type_synonym timedelta = int

definition date_add :: "date \<Rightarrow> timedelta \<Rightarrow> error + date" where
  "date_add dt td =
    (let ord = toordinal dt + td
     in if 0 < ord \<and> ord \<le> MAXORDINAL then Inr (fromordinal ord) else Inl OverflowError)"

definition date_sub :: "date \<Rightarrow> timedelta \<Rightarrow> error + date" where
  "date_sub dt td = date_add dt (- td)"

text \<open>
  \<^verbatim>\<open>calendar.monthrange(year, month)\<close>: the weekday of the 1st and the number of days.
  The month is checked first (\<^verbatim>\<open>IllegalMonthError\<close>); the weekday goes through
  \<^verbatim>\<open>datetime.date\<close>, which checks the year.
\<close>

definition mdays :: "int list" where
  "mdays = [0, 31, 28, 31, 30, 31, 30, 31, 31, 30, 31, 30, 31]"

definition isleap :: "int \<Rightarrow> bool" where
  "isleap y = (y mod 4 = 0 \<and> (y mod 100 \<noteq> 0 \<or> y mod 400 = 0))"

definition calendar_weekday :: "int \<Rightarrow> int \<Rightarrow> int \<Rightarrow> error + int" where
  "calendar_weekday y m d = ebind (datetime_date y m d) (\<lambda>dt. Inr (weekday dt))"

definition monthrange :: "int \<Rightarrow> int \<Rightarrow> error + (int \<times> int)" where
  "monthrange y m =
    (if \<not> (1 \<le> m \<and> m \<le> 12) then Inl IllegalMonthError
     else ebind (calendar_weekday y m 1) (\<lambda>day1.
          Inr (day1, mdays ! nat m + (if m = 2 \<and> isleap y then 1 else 0))))"

section \<open>The functions of gencal\<close>

subsection \<open>Values and calendar items\<close>

text \<open>
  The values an item of \<^verbatim>\<open>cal_items\<close> can hold.  A \<^verbatim>\<open>datetime.datetime\<close> is a date with a
  time of day (hour, minute, second); both it and a \<^verbatim>\<open>datetime.date\<close> have the attributes
  \<^verbatim>\<open>year\<close>, \<^verbatim>\<open>month\<close> and \<^verbatim>\<open>day\<close>, every other value raises \<^verbatim>\<open>AttributeError\<close> on them.
\<close>

datatype pyval = PyNone | PyStr string | PyInt int | PyDate date | PyDatetime date int int int

fun date_attrs :: "pyval \<Rightarrow> error + (int \<times> int \<times> int)" where
  "date_attrs (PyDate dt) = Inr (year dt, month dt, day dt)"
| "date_attrs (PyDatetime dt h mi s) = Inr (year dt, month dt, day dt)"
| "date_attrs PyNone = Inl AttributeError"
| "date_attrs (PyStr s) = Inl AttributeError"
| "date_attrs (PyInt i) = Inl AttributeError"

text \<open>An item is a dict; \<^verbatim>\<open>event['k']\<close> raises \<^verbatim>\<open>KeyError\<close> on a missing key.\<close>

type_synonym cal_item = "string \<rightharpoonup> pyval"

definition getitem :: "cal_item \<Rightarrow> string \<Rightarrow> error + pyval" where
  "getitem ev k = (case ev k of None \<Rightarrow> Inl KeyError | Some v \<Rightarrow> Inr v)"

text \<open>
  The dict stored for an event (line 166), with the key \<^verbatim>\<open>'class'\<close> as \<open>css_class\<close>.
\<close>

record cal_entry =
  title :: pyval
  url :: pyval
  css_class :: pyval
  timestamp :: pyval

text \<open>One cell (line 175): the keys \<^verbatim>\<open>'day'\<close> (as \<open>cell_day\<close>), \<^verbatim>\<open>'event'\<close>, \<^verbatim>\<open>'in_month'\<close>.\<close>

record cal_day =
  cell_day :: date
  event :: "cal_entry list"
  in_month :: bool

text \<open>The returned template context (line 184), with the key \<^verbatim>\<open>'date'\<close> as \<open>date_obj\<close>.\<close>

record gencal_context =
  month_cal :: "cal_day list list"
  headers :: "string list"
  date_obj :: date
  prev_date :: date
  next_date :: date

subsection \<open>get_iterable_days\<close>

text \<open>
  Lines 134-142: the local variables of \<^verbatim>\<open>get_iterable_days\<close>, in the order the source
  computes them, each library call with its exception.
\<close>

record iterable_days_locals =
  days_in_month :: int
  first_day_of_month :: date
  last_day_of_month :: date
  first_day_of_calendar :: date
  head_days :: int
  tail_days :: int
  total_days_in_calendar :: int

definition get_iterable_days_locals :: "int \<Rightarrow> int \<Rightarrow> error + iterable_days_locals" where
  "get_iterable_days_locals y m =
    ebind (monthrange y m) (\<lambda>month_range.
    let dim = snd month_range in
    ebind (datetime_date y m 1) (\<lambda>first.
    ebind (datetime_date y m dim) (\<lambda>last.
    ebind (date_sub first (weekday first)) (\<lambda>first_cal.
    let head = weekday first;
        tail = 6 - weekday last
    in Inr \<lparr>days_in_month = dim, first_day_of_month = first, last_day_of_month = last,
            first_day_of_calendar = first_cal, head_days = head, tail_days = tail,
            total_days_in_calendar = head + dim + tail\<rparr>))))"

text \<open>
  \<^verbatim>\<open>range(n)\<close>, here \<open>range_int\<close>, counts from 0 to \<open>n - 1\<close> and is empty when
  \<open>n \<le> 0\<close>.
\<close>

definition range_int :: "int \<Rightarrow> int list" where
  "range_int n = map int [0..<nat n]"

text \<open>
  Lines 144-145: the days the generator yields, or the \<^verbatim>\<open>OverflowError\<close> of the first
  addition that leaves the range of \<^verbatim>\<open>datetime.date\<close>.  The consumer of the generator
  (the loop of \<^verbatim>\<open>gencal\<close>) raises nothing itself, so the generator is run to its end here.
\<close>

primrec yield_days :: "date \<Rightarrow> int list \<Rightarrow> error + date list" where
  "yield_days first_cal [] = Inr []"
| "yield_days first_cal (i # rest) =
    (case date_add first_cal i of
       Inl e \<Rightarrow> Inl e
     | Inr d \<Rightarrow> (case yield_days first_cal rest of Inl e \<Rightarrow> Inl e | Inr ds \<Rightarrow> Inr (d # ds)))"

definition get_iterable_days :: "int \<Rightarrow> int \<Rightarrow> error + date list" where
  "get_iterable_days y m =
    ebind (get_iterable_days_locals y m) (\<lambda>l.
    if total_days_in_calendar l mod 7 \<noteq> 0 then Inl AssertionError
    else yield_days (first_day_of_calendar l) (range_int (total_days_in_calendar l)))"

subsection \<open>get_prev_next_months\<close>

text \<open>
  Lines 149-158: the 1st of the previous and of the next month.  Both dates are built by
  \<^verbatim>\<open>datetime.date\<close>, the previous one first.
\<close>

definition get_prev_next_months :: "int \<Rightarrow> int \<Rightarrow> error + (date \<times> date)" where
  "get_prev_next_months y m =
    (let lastmonth = m - 1; nextmonth = m + 1;
         lastyear = y; nextyear = y;
         (lastmonth, lastyear, nextmonth, nextyear) =
           (if lastmonth = 0 then (12, lastyear - 1, nextmonth, nextyear)
            else if nextmonth = 13 then (lastmonth, lastyear, 1, nextyear + 1)
            else (lastmonth, lastyear, nextmonth, nextyear))
     in ebind (datetime_date lastyear lastmonth 1) (\<lambda>p.
        ebind (datetime_date nextyear nextmonth 1) (\<lambda>n. Inr (p, n))))"

subsection \<open>get_events_by_day\<close>

text \<open>
  Lines 164-166, the body of the loop: the key (the date of the item's \<^verbatim>\<open>'day'\<close>, without
  its time) and the dict that is appended under it.
\<close>

definition event_entry :: "cal_item \<Rightarrow> error + (date \<times> cal_entry)" where
  "event_entry ev =
    ebind (getitem ev ''day'') (\<lambda>d.
    ebind (date_attrs d) (\<lambda>(dy, dm, dd).
    ebind (datetime_date dy dm dd) (\<lambda>d.
    ebind (getitem ev ''title'') (\<lambda>t.
    ebind (getitem ev ''url'') (\<lambda>u.
    ebind (getitem ev ''class'') (\<lambda>c.
    ebind (getitem ev ''day'') (\<lambda>ts.
    Inr (d, \<lparr>title = t, url = u, css_class = c, timestamp = ts\<rparr>))))))))"

text \<open>
  \<^verbatim>\<open>events_by_day\<close> is a \<^verbatim>\<open>defaultdict(list)\<close>: a date that was never a key reads as the
  empty list.
\<close>

type_synonym events_by_day = "date \<Rightarrow> cal_entry list"

fun group_events :: "events_by_day \<Rightarrow> cal_item list \<Rightarrow> error + events_by_day" where
  "group_events events_by_day [] = Inr events_by_day"
| "group_events events_by_day (ev # rest) =
    (case event_entry ev of
       Inl e \<Rightarrow> Inl e
     | Inr (d, entry) \<Rightarrow>
         group_events (events_by_day (d := events_by_day d @ [entry])) rest)"

definition get_events_by_day :: "cal_item list \<Rightarrow> error + events_by_day" where
  "get_events_by_day cal_items = group_events (\<lambda>d. []) cal_items"

subsection \<open>gencal\<close>

definition make_cal_day :: "events_by_day \<Rightarrow> int \<Rightarrow> date \<Rightarrow> cal_day" where
  "make_cal_day events_by_day m d =
     \<lparr>cell_day = d, event = events_by_day d, in_month = (month d = m)\<rparr>"

text \<open>
  Lines 174-179: the loop over the days, its state the pair of \<^verbatim>\<open>week\<close> and
  \<^verbatim>\<open>month_cal\<close> (here \<open>cal\<close>).
\<close>

fun week_loop ::
  "events_by_day \<Rightarrow> int \<Rightarrow> date list \<Rightarrow> cal_day list \<times> cal_day list list
     \<Rightarrow> cal_day list \<times> cal_day list list" where
  "week_loop events_by_day m [] (week, cal) = (week, cal)"
| "week_loop events_by_day m (d # ds) (week, cal) =
    (let week = week @ [make_cal_day events_by_day m d]
     in if weekday d = 6
        then week_loop events_by_day m ds ([], cal @ [week])
        else week_loop events_by_day m ds (week, cal))"

text \<open>
  \<^verbatim>\<open>calendar.weekheader(2).split(' ')\<close> with the default first weekday and the C locale.
\<close>

definition week_headers :: "string list" where
  "week_headers = [''Mo'', ''Tu'', ''We'', ''Th'', ''Fr'', ''Sa'', ''Su'']"

text \<open>
  Lines 170-184.  The argument is any object with the attributes \<^verbatim>\<open>year\<close> and
  \<^verbatim>\<open>month\<close>; the events are grouped first, then the days are enumerated, then the
  neighbouring months are computed.
\<close>

definition gencal :: "date \<Rightarrow> cal_item list \<Rightarrow> error + gencal_context" where
  "gencal date cal_items =
    (let y = year date; m = month date in
     ebind (get_events_by_day cal_items) (\<lambda>events_by_day.
     ebind (get_iterable_days y m) (\<lambda>days.
     let (week, month_cal) = week_loop events_by_day m days ([], []) in
     ebind (get_prev_next_months y m) (\<lambda>(prev_date, next_date).
     Inr \<lparr>month_cal = month_cal, headers = week_headers, date_obj = date,
          prev_date = prev_date, next_date = next_date\<rparr>))))"

section \<open>Notions used to state the properties\<close>

text \<open>A year of \<^verbatim>\<open>datetime.date\<close> and a month of the calendar.\<close>

definition valid_year_month :: "int \<Rightarrow> int \<Rightarrow> bool" where
  "valid_year_month y m = (1 \<le> y \<and> y \<le> 9999 \<and> 1 \<le> m \<and> m \<le> 12)"

text \<open>The cells of a grid, week after week.\<close>

definition cells :: "gencal_context \<Rightarrow> cal_day list" where
  "cells ctx = concat (month_cal ctx)"

text \<open>The order of \<^verbatim>\<open>datetime.date\<close>: by year, then month, then day.\<close>

definition date_less :: "date \<Rightarrow> date \<Rightarrow> bool" where
  "date_less a b =
     (year a < year b \<or> (year a = year b \<and> (month a < month b \<or>
        (month a = month b \<and> day a < day b))))"

definition date_le :: "date \<Rightarrow> date \<Rightarrow> bool" where
  "date_le a b = (date_less a b \<or> a = b)"

text \<open>The month before and the month after, as (year, month).\<close>

definition prev_month :: "int \<Rightarrow> int \<Rightarrow> int \<times> int" where
  "prev_month y m = (if m = 1 then (y - 1, 12) else (y, m - 1))"

definition next_month :: "int \<Rightarrow> int \<Rightarrow> int \<times> int" where
  "next_month y m = (if m = 12 then (y + 1, 1) else (y, m + 1))"

text \<open>
  The calendar date of an item: the date of its \<^verbatim>\<open>'day'\<close>, without the time of day;
  \<open>None\<close> when the key is missing or the value is no date.
\<close>

definition item_date :: "cal_item \<Rightarrow> date option" where
  "item_date ev =
    (case ev ''day'' of
       Some (PyDate dt) \<Rightarrow> Some dt
     | Some (PyDatetime dt h mi s) \<Rightarrow> Some dt
     | _ \<Rightarrow> None)"

text \<open>
  An entry of a cell shows an item: it has the item's title, url and class, and its
  \<open>timestamp\<close> is the item's \<^verbatim>\<open>'day'\<close> as it was given.
\<close>

definition is_entry_of :: "cal_entry \<Rightarrow> cal_item \<Rightarrow> bool" where
  "is_entry_of g ev =
    (ev ''title'' = Some (title g) \<and> ev ''url'' = Some (url g) \<and>
     ev ''class'' = Some (css_class g) \<and> ev ''day'' = Some (timestamp g))"

text \<open>
  What is wrong with the \<^verbatim>\<open>'day'\<close> of an item, as the exception it leads to: the key is
  missing (\<^verbatim>\<open>KeyError\<close>), the value is no date (\<^verbatim>\<open>AttributeError\<close>), a field of the date
  does not fit a C int (\<^verbatim>\<open>OverflowError\<close>), or the fields are no date of the calendar between
  the years 1 and 9999 (\<^verbatim>\<open>ValueError\<close>); \<open>None\<close> when the day is usable.
\<close>

definition day_error :: "cal_item \<Rightarrow> error option" where
  "day_error ev =
    (case ev ''day'' of
       None \<Rightarrow> Some KeyError
     | Some v \<Rightarrow>
        (case item_date ev of
           None \<Rightarrow> Some AttributeError
         | Some dt \<Rightarrow>
             if \<not> (fits_c_int (year dt) \<and> fits_c_int (month dt) \<and> fits_c_int (day dt))
             then Some OverflowError
             else if \<not> (1 \<le> year dt \<and> year dt \<le> 9999 \<and> 1 \<le> month dt \<and> month dt \<le> 12 \<and>
                        1 \<le> day dt \<and> day dt \<le> lib_days_in_month (year dt) (month dt))
             then Some ValueError
             else None))"

text \<open>All the entries a grid shows.\<close>

definition shown_events :: "gencal_context \<Rightarrow> cal_entry list" where
  "shown_events ctx = concat (map event (cells ctx))"

text \<open>
  The dates a grid of the month may show: the days of the month, at most the last six days
  of the month before and at most the first six days of the month after.
\<close>

definition in_padded_month :: "int \<Rightarrow> int \<Rightarrow> date \<Rightarrow> bool" where
  "in_padded_month y m dt =
    (((year dt, month dt) = (y, m) \<and> 1 \<le> day dt \<and> day dt \<le> lib_days_in_month y m) \<or>
     ((year dt, month dt) = prev_month y m \<and>
        lib_days_in_month (fst (prev_month y m)) (snd (prev_month y m)) - 6 < day dt \<and>
        day dt \<le> lib_days_in_month (fst (prev_month y m)) (snd (prev_month y m))) \<or>
     ((year dt, month dt) = next_month y m \<and> 1 \<le> day dt \<and> day dt \<le> 6))"

section \<open>The grid as it should be\<close>

text \<open>
  The definitions of this section are not taken from the source.  They describe the grid of
  a month directly by its dates; the proofs show that \<open>get_iterable_days\<close> and \<open>gencal\<close>
  compute it.
\<close>

text \<open>
  The date of cell \<open>i\<close>, counted from 0: the last \<open>h\<close> days of the month before, where
  \<open>h\<close> is the weekday of the 1st, then the days of the month, then the first days of the
  month after.
\<close>

definition grid_date :: "int \<Rightarrow> int \<Rightarrow> int \<Rightarrow> date" where
  "grid_date y m i =
    (let h = weekday \<lparr>year = y, month = m, day = 1\<rparr>;
         dim = lib_days_in_month y m
     in if i < h
        then \<lparr>year = fst (prev_month y m), month = snd (prev_month y m),
              day = lib_days_in_month (fst (prev_month y m)) (snd (prev_month y m)) - h + 1 + i\<rparr>
        else if i < h + dim then \<lparr>year = y, month = m, day = i - h + 1\<rparr>
        else \<lparr>year = fst (next_month y m), month = snd (next_month y m),
              day = i - h - dim + 1\<rparr>)"

text \<open>The ordinal of the first cell: the ordinal of the 1st minus its weekday.\<close>

definition grid_start :: "int \<Rightarrow> int \<Rightarrow> int" where
  "grid_start y m = ymd2ord y m 1 - weekday \<lparr>year = y, month = m, day = 1\<rparr>"

text \<open>The number of cells.\<close>

definition grid_size :: "int \<Rightarrow> int \<Rightarrow> int" where
  "grid_size y m =
     weekday \<lparr>year = y, month = m, day = 1\<rparr> + lib_days_in_month y m +
     (6 - weekday \<lparr>year = y, month = m, day = lib_days_in_month y m\<rparr>)"

text \<open>The dates of the grid, in order.\<close>

definition grid_days :: "int \<Rightarrow> int \<Rightarrow> date list" where
  "grid_days y m = map (\<lambda>i. grid_date y m (int i)) [0..<nat (grid_size y m)]"

text \<open>The weeks of the grid: the cells of its dates, seven by seven.\<close>

definition grid_weeks :: "events_by_day \<Rightarrow> int \<Rightarrow> int \<Rightarrow> cal_day list list" where
  "grid_weeks ebd y m =
     map (\<lambda>j. map (make_cal_day ebd m) (take 7 (drop (7 * j) (grid_days y m))))
       [0..<nat (grid_size y m) div 7]"

text \<open>
  The month and the day that \<open>ord2ymd\<close> computes from the position \<open>n\<close> in the year
  (0 for January 1st), written without \<open>let\<close>; used in the proofs only.
\<close>

definition month_day_of :: "bool \<Rightarrow> int \<Rightarrow> int \<times> int" where
  "month_day_of lp n =
     (if DAYS_BEFORE_MONTH ! nat ((n + 50) div 32) + (if (n + 50) div 32 > 2 \<and> lp then 1 else 0) > n
      then ((n + 50) div 32 - 1,
            n - (DAYS_BEFORE_MONTH ! nat ((n + 50) div 32) + (if (n + 50) div 32 > 2 \<and> lp then 1 else 0)
                 - (DAYS_IN_MONTH ! nat ((n + 50) div 32 - 1) +
                    (if (n + 50) div 32 - 1 = 2 \<and> lp then 1 else 0))) + 1)
      else ((n + 50) div 32,
            n - (DAYS_BEFORE_MONTH ! nat ((n + 50) div 32) + (if (n + 50) div 32 > 2 \<and> lp then 1 else 0)) + 1))"

section \<open>Example inputs\<close>

text \<open>
  The first item of the docstring of \<^verbatim>\<open>gencal\<close>, here with a time of day (14:00), and an
  item of June 2008, which no grid of February 2008 shows.
\<close>

definition concert :: cal_item where
  "concert = [''day'' \<mapsto> PyDatetime \<lparr>year = 2008, month = 1, day = 30\<rparr> 14 0 0,
              ''title'' \<mapsto> PyStr ''Concert at Huckelberries'',
              ''class'' \<mapsto> PyStr ''concert'', ''url'' \<mapsto> PyStr ''/foo/2'']"

definition picnic :: cal_item where
  "picnic = [''day'' \<mapsto> PyDate \<lparr>year = 2008, month = 6, day = 15\<rparr>,
             ''title'' \<mapsto> PyStr ''Picnic'', ''class'' \<mapsto> PyStr ''outing'',
             ''url'' \<mapsto> PyNone]"

section \<open>Basic facts\<close>

lemma ebind_simps [simp]:
  "ebind (Inl e) f = Inl e"
  "ebind (Inr x) f = f x"
  by (simp_all add: ebind_def)

lemma month_cases:
  assumes "1 \<le> m" "m \<le> 12"
  shows "m \<in> {1, 2, 3, 4, 5, 6, 7, 8, 9, 10, 11, 12::int}"
  using assms by simp arith

lemma lib_days_in_month_bounds:
  assumes "1 \<le> m" "m \<le> 12"
  shows "28 \<le> lib_days_in_month y m \<and> lib_days_in_month y m \<le> 31"
  using month_cases [OF assms]
  by (auto simp: lib_days_in_month_def DAYS_IN_MONTH_def)


section \<open>Ordinals and dates\<close>

lemma div_unique_int:
  fixes q r k :: int
  assumes "0 \<le> r" "r < k"
  shows "(k * q + r) div k = q" "(k * q + r) mod k = r"
  using assms by (simp_all add: div_pos_pos_trivial)

lemma mod_eq_0_upto:
  fixes x k :: int
  assumes "0 < x" "x \<le> k"
  shows "x mod k = 0 \<longleftrightarrow> x = k"
proof (cases "x = k")
  case True
  then show ?thesis by simp
next
  case False
  with assms have "x mod k = x" by (simp add: mod_pos_pos_trivial)
  with assms False show ?thesis by simp
qed

lemma div_bounds:
  fixes y k :: int
  assumes "0 < k"
  shows "k * (y div k) \<le> y" "y < k * (y div k) + k"
proof -
  have "0 \<le> y mod k" "y mod k < k" using assms by simp_all
  then show "k * (y div k) \<le> y" "y < k * (y div k) + k"
    using mult_div_mod_eq [of k y] by linarith+
qed

text \<open>A year, counted from 0, splits into 400-, 100-, 4- and 1-year cycles.\<close>

lemma year_split:
  fixes y1 :: int
  assumes "0 \<le> y1"
  obtains a b c e where "0 \<le> b" "b \<le> 3" "0 \<le> c" "c \<le> 24" "0 \<le> e" "e \<le> 3"
    "y1 = 400 * a + 100 * b + 4 * c + e"
proof -
  define a where "a = y1 div 400"
  define r where "r = y1 mod 400"
  define b where "b = r div 100"
  define s where "s = r mod 100"
  define c where "c = s div 4"
  define e where "e = s mod 4"
  have y1: "y1 = 400 * a + r" by (simp add: a_def r_def)
  have r: "r = 100 * b + s" by (simp add: b_def s_def)
  have s: "s = 4 * c + e" by (simp add: c_def e_def)
  have rb: "0 \<le> r" "r < 400" by (simp_all add: r_def)
  have sb: "0 \<le> s" "s < 100" by (simp_all add: s_def)
  have eb: "0 \<le> e" "e < 4" by (simp_all add: e_def)
  have "0 \<le> b" "b \<le> 3" using rb r sb by linarith+
  moreover have "0 \<le> c" "c \<le> 24" using sb s eb by linarith+
  moreover have "0 \<le> e" "e \<le> 3" using eb by linarith+
  moreover have "y1 = 400 * a + 100 * b + 4 * c + e" using y1 r s by linarith
  ultimately show ?thesis using that by blast
qed

lemma year_parts:
  fixes a b c e :: int
  assumes "0 \<le> b" "b \<le> 3" "0 \<le> c" "c \<le> 24" "0 \<le> e" "e \<le> 3"
    and y: "y = 400 * a + 100 * b + 4 * c + e + 1"
  shows "days_before_year y = 146097 * a + 36524 * b + 1461 * c + 365 * e"
    and "is_leap y \<longleftrightarrow> (e = 3 \<and> (c \<noteq> 24 \<or> b = 3))"
proof -
  have d4: "(y - 1) div 4 = 100 * a + 25 * b + c"
    using div_unique_int(1) [of e 4 "100 * a + 25 * b + c"] assms by (simp add: algebra_simps)
  have d100: "(y - 1) div 100 = 4 * a + b"
    using div_unique_int(1) [of "4 * c + e" 100 "4 * a + b"] assms by (simp add: algebra_simps)
  have d400: "(y - 1) div 400 = a"
    using div_unique_int(1) [of "100 * b + 4 * c + e" 400 a] assms by (simp add: algebra_simps)
  show "days_before_year y = 146097 * a + 36524 * b + 1461 * c + 365 * e"
    unfolding days_before_year_def Let_def d4 d100 d400 using y by simp
  have m4: "y mod 4 = (e + 1) mod 4"
    using mod_mult_self4 [of 4 "100 * a + 25 * b + c" "e + 1"] y by (simp add: algebra_simps)
  have m100: "y mod 100 = (4 * c + e + 1) mod 100"
    using mod_mult_self4 [of 100 "4 * a + b" "4 * c + e + 1"] y by (simp add: algebra_simps)
  have m400: "y mod 400 = (100 * b + 4 * c + e + 1) mod 400"
    using mod_mult_self4 [of 400 a "100 * b + 4 * c + e + 1"] y by (simp add: algebra_simps)
  have e4: "(e + 1) mod 4 = 0 \<longleftrightarrow> e = 3"
    using mod_eq_0_upto [of "e + 1" 4] assms(5,6) by simp
  have c100: "e = 3 \<Longrightarrow> ((4 * c + e + 1) mod 100 = 0 \<longleftrightarrow> c = 24)"
    using mod_eq_0_upto [of "4 + 4 * c" 100] assms(3,4) by simp
  have b400: "e = 3 \<Longrightarrow> c = 24 \<Longrightarrow> ((100 * b + 4 * c + e + 1) mod 400 = 0 \<longleftrightarrow> b = 3)"
    using mod_eq_0_upto [of "100 + 100 * b" 400] assms(1,2) by simp
  show "is_leap y \<longleftrightarrow> (e = 3 \<and> (c \<noteq> 24 \<or> b = 3))"
    unfolding is_leap_def m4 m100 m400 using e4 c100 b400 by auto
qed

text \<open>The estimate of the month, corrected, is the month.\<close>

lemma month_estimate:
  assumes "1 \<le> m" "m \<le> 12" "1 \<le> d"
    and "d \<le> (if m = 2 \<and> lp then 29 else DAYS_IN_MONTH ! nat m)"
  shows "month_day_of lp (DAYS_BEFORE_MONTH ! nat m + (if m > 2 \<and> lp then 1 else 0) + d - 1) = (m, d)"
proof -
  define n where "n = DAYS_BEFORE_MONTH ! nat m + (if m > 2 \<and> lp then 1 else 0) + d - 1"
  have est: "(n + 50) div 32 = m \<or> (n + 50) div 32 = m + 1"
    using month_cases [OF assms(1,2)] assms(3,4) unfolding n_def
    by (cases lp) (auto simp: DAYS_BEFORE_MONTH_def DAYS_IN_MONTH_def; arith)+
  show ?thesis
    unfolding n_def [symmetric]
    using est
  proof
    assume "(n + 50) div 32 = m"
    then show "month_day_of lp n = (m, d)"
      using month_cases [OF assms(1,2)] assms(3,4) unfolding month_day_of_def n_def
      by (cases lp) (auto simp: DAYS_BEFORE_MONTH_def DAYS_IN_MONTH_def)
  next
    assume "(n + 50) div 32 = m + 1"
    then show "month_day_of lp n = (m, d)"
      using month_cases [OF assms(1,2)] assms(3,4) unfolding month_day_of_def n_def
      by (cases lp) (auto simp: DAYS_BEFORE_MONTH_def DAYS_IN_MONTH_def)
  qed
qed

text \<open>The four divisions of \<open>ord2ymd\<close>, on an ordinal given by its cycles.\<close>

lemma ord2ymd_steps:
  fixes a b c e t :: int
  assumes "0 \<le> b" "b \<le> 3" "0 \<le> c" "c \<le> 24" "0 \<le> e" "e \<le> 3" "0 \<le> t"
    and "t \<le> 364 \<or> (t = 365 \<and> e = 3 \<and> c \<noteq> 24)"
    and x: "x = 146097 * a + 36524 * b + 1461 * c + 365 * e + t"
  shows "x div 146097 = a" "x mod 146097 div 36524 = b"
    "x mod 146097 mod 36524 div 1461 = c"
    "x mod 146097 mod 36524 mod 1461 = 365 * e + t"
proof -
  have x1: "x = 146097 * a + (36524 * b + 1461 * c + 365 * e + t)" by (simp add: x)
  have b1: "0 \<le> 36524 * b + 1461 * c + 365 * e + t" "36524 * b + 1461 * c + 365 * e + t < 146097"
    using assms(1-8) by linarith+
  have m1: "x mod 146097 = 36524 * b + (1461 * c + 365 * e + t)"
    unfolding x1 using div_unique_int(2) [OF b1] by simp
  have b2: "0 \<le> 1461 * c + 365 * e + t" "1461 * c + 365 * e + t < 36524"
    using assms(1-8) by linarith+
  have m2: "x mod 146097 mod 36524 = 1461 * c + (365 * e + t)"
    unfolding m1 using div_unique_int(2) [OF b2] by simp
  have b3: "0 \<le> 365 * e + t" "365 * e + t < 1461"
    using assms(1-8) by linarith+
  show "x div 146097 = a" unfolding x1 using div_unique_int(1) [OF b1] by simp
  show "x mod 146097 div 36524 = b" unfolding m1 using div_unique_int(1) [OF b2] by simp
  show "x mod 146097 mod 36524 div 1461 = c" unfolding m2 using div_unique_int(1) [OF b3] by simp
  show "x mod 146097 mod 36524 mod 1461 = 365 * e + t"
    unfolding m2 using div_unique_int(2) [OF b3] by simp
qed

lemma ord2ymd_ordinary:
  fixes a b c e t :: int
  assumes "0 \<le> b" "b \<le> 3" "0 \<le> c" "c \<le> 24" "0 \<le> e" "e \<le> 3" "0 \<le> t" "t \<le> 364"
  shows "ord2ymd (146097 * a + 36524 * b + 1461 * c + 365 * e + t + 1) =
     \<lparr>year = 400 * a + 100 * b + 4 * c + e + 1,
      month = fst (month_day_of (e = 3 \<and> (c \<noteq> 24 \<or> b = 3)) t),
      day = snd (month_day_of (e = 3 \<and> (c \<noteq> 24 \<or> b = 3)) t)\<rparr>"
proof -
  define x where "x = 146097 * a + 36524 * b + 1461 * c + 365 * e + t"
  have t: "t \<le> 364 \<or> (t = 365 \<and> e = 3 \<and> c \<noteq> 24)" using assms by simp
  note st = ord2ymd_steps [OF assms(1-7) t x_def]
  have d1: "(365 * e + t) div 365 = e" using div_unique_int(1) [of t 365 e] assms by simp
  have d2: "(365 * e + t) mod 365 = t" using div_unique_int(2) [of t 365 e] assms by simp
  have x1: "x + 1 - 1 = x" by simp
  have "ord2ymd (x + 1) =
     \<lparr>year = 400 * a + 100 * b + 4 * c + e + 1,
      month = fst (month_day_of (e = 3 \<and> (c \<noteq> 24 \<or> b = 3)) t),
      day = snd (month_day_of (e = 3 \<and> (c \<noteq> 24 \<or> b = 3)) t)\<rparr>"
    unfolding ord2ymd_def Let_def DI400Y_def DI100Y_def DI4Y_def x1 st d1 d2 month_day_of_def
    using assms(2,6) by simp
  then show ?thesis by (simp add: x_def)
qed

text \<open>December 31st of a leap year is the one day that the divisions overshoot.\<close>

lemma ord2ymd_last_of_leap:
  fixes a b c :: int
  assumes "0 \<le> b" "b \<le> 3" "0 \<le> c" "c \<le> 24" "c \<noteq> 24 \<or> b = 3"
  shows "ord2ymd (146097 * a + 36524 * b + 1461 * c + 365 * 3 + 365 + 1) =
     \<lparr>year = 400 * a + 100 * b + 4 * c + 3 + 1, month = 12, day = 31\<rparr>"
proof (cases "c = 24")
  case False
  define x where "x = 146097 * a + 36524 * b + 1461 * c + 365 * 3 + 365"
  have t: "(365::int) \<le> 364 \<or> ((365::int) = 365 \<and> (3::int) = 3 \<and> c \<noteq> 24)" using False by simp
  have z: "(0::int) \<le> 3" "(3::int) \<le> 3" "(0::int) \<le> 365" by simp_all
  note st = ord2ymd_steps [OF assms(1-4) z t x_def]
  have x1: "x + 1 - 1 = x" by simp
  have d: "(365 * 3 + 365) div 365 = (4::int)" by simp
  have "ord2ymd (x + 1) = \<lparr>year = 400 * a + 100 * b + 4 * c + 3 + 1, month = 12, day = 31\<rparr>"
    unfolding ord2ymd_def Let_def DI400Y_def DI100Y_def DI4Y_def x1 st d
    by simp
  then show ?thesis by (simp add: x_def)
next
  case True
  with assms have b: "b = 3" by simp
  define x where "x = 146097 * a + 146096"
  have d: "x div 146097 = a" "x mod 146097 = 146096"
    unfolding x_def using div_unique_int [of 146096 146097 a] by simp_all
  have x1: "x + 1 - 1 = x" by simp
  have "ord2ymd (x + 1) = \<lparr>year = 400 * a + 400, month = 12, day = 31\<rparr>"
    unfolding ord2ymd_def Let_def DI400Y_def DI100Y_def DI4Y_def x1 d
    by simp
  then show ?thesis by (simp add: x_def True b)
qed

text \<open>Every date from year 1 on is the date of its ordinal.\<close>

lemma yday_bounds:
  assumes "1 \<le> m" "m \<le> 12" "1 \<le> d"
    and "d \<le> (if m = 2 \<and> lp then 29 else DAYS_IN_MONTH ! nat m)"
  defines "t \<equiv> DAYS_BEFORE_MONTH ! nat m + (if m > 2 \<and> lp then 1 else 0) + d - 1"
  shows "0 \<le> t" "t \<le> 364 \<or> (t = 365 \<and> lp \<and> m = 12 \<and> d = 31)"
  using month_cases [OF assms(1,2)] assms(3,4) unfolding t_def
  by (auto simp: DAYS_BEFORE_MONTH_def DAYS_IN_MONTH_def split: if_splits)

lemma ord2ymd_ymd2ord:
  assumes "1 \<le> y" "1 \<le> m" "m \<le> 12" "1 \<le> d" "d \<le> lib_days_in_month y m"
  shows "ord2ymd (ymd2ord y m d) = \<lparr>year = y, month = m, day = d\<rparr>"
proof -
  from assms(1) have "0 \<le> y - 1" by simp
  then obtain a b c e where
    bnd: "0 \<le> b" "b \<le> 3" "0 \<le> c" "c \<le> 24" "0 \<le> e" "e \<le> 3"
    and y1: "y - 1 = 400 * a + 100 * b + 4 * c + e"
    by (rule year_split)
  from y1 have y: "y = 400 * a + 100 * b + 4 * c + e + 1" by simp
  define lp where "lp = (e = 3 \<and> (c \<noteq> 24 \<or> b = 3))"
  note yp = year_parts [OF bnd y]
  have lp: "is_leap y = lp" by (simp add: yp(2) lp_def)
  define t where "t = DAYS_BEFORE_MONTH ! nat m + (if m > 2 \<and> lp then 1 else 0) + d - 1"
  have dle: "d \<le> (if m = 2 \<and> lp then 29 else DAYS_IN_MONTH ! nat m)"
    using assms(5) by (simp add: lib_days_in_month_def lp)
  note tb = yday_bounds [OF assms(2,3,4) dle, folded t_def]
  have ord: "ymd2ord y m d = 146097 * a + 36524 * b + 1461 * c + 365 * e + t + 1"
    by (simp add: ymd2ord_def yp(1) days_before_month_def lp t_def)
  from tb(2) show ?thesis
  proof
    assume t364: "t \<le> 364"
    have "month_day_of lp t = (m, d)"
      unfolding t_def by (rule month_estimate [OF assms(2,3,4) dle])
    then show ?thesis
      unfolding ord using ord2ymd_ordinary [OF bnd tb(1) t364, of a] by (simp add: lp_def y)
  next
    assume last: "t = 365 \<and> lp \<and> m = 12 \<and> d = 31"
    then have e: "e = 3" and cb: "c \<noteq> 24 \<or> b = 3" by (simp_all add: lp_def)
    show ?thesis
      unfolding ord using ord2ymd_last_of_leap [OF bnd(1-4) cb, of a] last by (simp add: e y)
  qed
qed

section \<open>Neighbouring years and months\<close>

lemma div_step:
  fixes y k :: int
  assumes "1 < k"
  shows "y div k = (y - 1) div k + (if y mod k = 0 then 1 else 0)"
proof (cases "y mod k = 0")
  case True
  then have eq: "y - 1 = k * (y div k - 1) + (k - 1)"
    using mult_div_mod_eq [of k y] by (simp add: algebra_simps)
  have "(y - 1) div k = y div k - 1"
    by (subst eq) (rule div_unique_int(1), use assms in simp_all)
  with True show ?thesis by simp
next
  case False
  have "0 \<le> y mod k" "y mod k < k" using assms by simp_all
  with False have r: "0 \<le> y mod k - 1" "y mod k - 1 < k" by simp_all
  have eq: "y - 1 = k * (y div k) + (y mod k - 1)"
    using mult_div_mod_eq [of k y] by simp
  have "(y - 1) div k = y div k"
    by (subst eq) (rule div_unique_int(1) [OF r])
  with False show ?thesis by simp
qed

lemma mod_100_4: "(y::int) mod 100 = 0 \<Longrightarrow> y mod 4 = 0"
  using mod_mod_cancel [of 4 100 y] by simp

lemma mod_400_100: "(y::int) mod 400 = 0 \<Longrightarrow> y mod 100 = 0"
  using mod_mod_cancel [of 100 400 y] by simp

lemma days_before_year_Suc:
  "days_before_year (y + 1) = days_before_year y + (if is_leap y then 366 else 365)"
proof -
  define c4 c100 c400 where "c4 = (y mod 4 = 0)" and "c100 = (y mod 100 = 0)"
    and "c400 = (y mod 400 = 0)"
  define a4 :: int where "a4 = (if c4 then 1 else 0)"
  define a100 :: int where "a100 = (if c100 then 1 else 0)"
  define a400 :: int where "a400 = (if c400 then 1 else 0)"
  define p4 p100 p400 where "p4 = y div 4" and "p100 = y div 100" and "p400 = y div 400"
  define q4 q100 q400 where "q4 = (y - 1) div 4" and "q100 = (y - 1) div 100"
    and "q400 = (y - 1) div 400"
  have e: "p4 = q4 + a4" "p100 = q100 + a100" "p400 = q400 + a400"
    unfolding p4_def p100_def p400_def q4_def q100_def q400_def a4_def a100_def a400_def
      c4_def c100_def c400_def
    by (rule div_step, simp)+
  have imp: "c100 \<Longrightarrow> c4" "c400 \<Longrightarrow> c100"
    unfolding c4_def c100_def c400_def by (rule mod_100_4, assumption) (rule mod_400_100, assumption)
  have lp: "is_leap y = (c4 \<and> (\<not> c100 \<or> c400))"
    unfolding is_leap_def c4_def c100_def c400_def ..
  have l: "365 + a4 - a100 + a400 = (if is_leap y then 366 else 365)"
    unfolding a4_def a100_def a400_def lp using imp
    by (cases c4; cases c100; cases c400) simp_all
  have "days_before_year (y + 1) = y * 365 + p4 - p100 + p400"
    unfolding days_before_year_def Let_def p4_def p100_def p400_def by simp
  also have "\<dots> = ((y - 1) * 365 + q4 - q100 + q400) + (365 + a4 - a100 + a400)"
    unfolding e by (simp add: algebra_simps)
  also have "(y - 1) * 365 + q4 - q100 + q400 = days_before_year y"
    unfolding days_before_year_def Let_def q4_def q100_def q400_def ..
  finally show ?thesis using l by simp
qed

lemma days_before_month_Suc:
  assumes "1 \<le> m" "m \<le> 11"
  shows "days_before_month y (m + 1) = days_before_month y m + lib_days_in_month y m"
proof -
  from assms have "m \<in> {1, 2, 3, 4, 5, 6, 7, 8, 9, 10, 11::int}" by simp arith
  then show ?thesis
    by (auto simp: days_before_month_def lib_days_in_month_def DAYS_BEFORE_MONTH_def
        DAYS_IN_MONTH_def)
qed

lemma ymd2ord_day: "ymd2ord y m d = ymd2ord y m 1 + d - 1"
  by (simp add: ymd2ord_def)

lemma ymd2ord_next_month:
  assumes "1 \<le> m" "m \<le> 12"
  shows "ymd2ord (fst (next_month y m)) (snd (next_month y m)) 1 =
         ymd2ord y m (lib_days_in_month y m) + 1"
proof (cases "m = 12")
  case True
  then show ?thesis
    by (simp add: next_month_def ymd2ord_def days_before_year_Suc days_before_month_def
        lib_days_in_month_def DAYS_BEFORE_MONTH_def DAYS_IN_MONTH_def)
next
  case False
  with assms have "m \<le> 11" by simp
  from days_before_month_Suc [OF assms(1) this, of y] False show ?thesis
    by (simp add: next_month_def ymd2ord_def)
qed

lemma ymd2ord_prev_month:
  assumes "1 \<le> m" "m \<le> 12"
  shows "ymd2ord (fst (prev_month y m)) (snd (prev_month y m))
           (lib_days_in_month (fst (prev_month y m)) (snd (prev_month y m))) + 1 =
         ymd2ord y m 1"
proof (cases "m = 1")
  case True
  then show ?thesis
    using days_before_year_Suc [of "y - 1"]
    by (simp add: prev_month_def ymd2ord_def days_before_month_def
        lib_days_in_month_def DAYS_BEFORE_MONTH_def DAYS_IN_MONTH_def)
next
  case False
  with assms have "1 \<le> m - 1" "m - 1 \<le> 11" by simp_all
  from days_before_month_Suc [OF this, of y] False show ?thesis
    by (simp add: prev_month_def ymd2ord_def)
qed

lemma days_before_year_upper:
  assumes "y \<le> 9998"
  shows "days_before_year y \<le> 3651331"
proof -
  define q4 q100 q400 where "q4 = (y - 1) div 4" and "q100 = (y - 1) div 100"
    and "q400 = (y - 1) div 400"
  have "4 * q4 \<le> y - 1" "y - 1 < 100 * q100 + 100" "100 * q100 \<le> y - 1" "400 * q400 \<le> y - 1"
    "y - 1 < 400 * q400 + 400"
    unfolding q4_def q100_def q400_def
    using div_bounds [of 4 "y - 1"] div_bounds [of 100 "y - 1"] div_bounds [of 400 "y - 1"]
    by simp_all
  moreover have "days_before_year y = 365 * y - 365 + q4 - q100 + q400"
    unfolding days_before_year_def Let_def q4_def q100_def q400_def by (simp add: algebra_simps)
  ultimately show ?thesis using assms by linarith
qed

lemma days_before_year_9999: "days_before_year 9999 = 3651694"
  by (simp add: days_before_year_def)

lemma days_before_year_lower:
  assumes "1 \<le> y"
  shows "365 * y - 365 \<le> days_before_year y"
proof -
  have "(y - 1) div 100 \<le> (y - 1) div 4"
    using assms by (intro zdiv_mono2) simp_all
  moreover have "0 \<le> (y - 1) div 400" using assms by simp
  ultimately show ?thesis
    unfolding days_before_year_def Let_def by (simp add: algebra_simps)
qed

section \<open>The range of ordinals\<close>

lemma days_before_month_bounds:
  assumes "1 \<le> m" "m \<le> 12"
  shows "0 \<le> days_before_month y m"
    and "days_before_month y m + lib_days_in_month y m \<le> (if is_leap y then 366 else 365)"
    and "m \<noteq> 12 \<Longrightarrow> days_before_month y m + lib_days_in_month y m \<le> (if is_leap y then 335 else 334)"
    and "m \<noteq> 1 \<Longrightarrow> 31 \<le> days_before_month y m"
  using month_cases [OF assms]
  by (auto simp: days_before_month_def lib_days_in_month_def DAYS_BEFORE_MONTH_def
      DAYS_IN_MONTH_def)

lemma is_leap_9999: "\<not> is_leap 9999"
  by (simp add: is_leap_def)

lemma ymd2ord_lower:
  assumes "valid_year_month y m" "1 \<le> d"
  shows "1 \<le> ymd2ord y m d"
proof -
  from assms(1) have v: "1 \<le> y" "1 \<le> m" "m \<le> 12" by (simp_all add: valid_year_month_def)
  from days_before_year_lower [OF v(1)] v(1) have "0 \<le> days_before_year y" by linarith
  with days_before_month_bounds(1) [OF v(2,3), of y] assms(2) show ?thesis
    by (simp add: ymd2ord_def)
qed

lemma ymd2ord_first_ge_32:
  assumes "valid_year_month y m" "(y, m) \<noteq> (1, 1)"
  shows "32 \<le> ymd2ord y m 1"
proof -
  from assms(1) have v: "1 \<le> y" "1 \<le> m" "m \<le> 12" by (simp_all add: valid_year_month_def)
  show ?thesis
  proof (cases "y = 1")
    case True
    with assms(2) have "m \<noteq> 1" by simp
    from days_before_month_bounds(4) [OF v(2,3) this, of y] days_before_year_lower [OF v(1)] v(1)
    show ?thesis by (simp add: ymd2ord_def)
  next
    case False
    with v(1) have "2 \<le> y" by simp
    with days_before_year_lower [OF v(1)] have "365 \<le> days_before_year y" by linarith
    with days_before_month_bounds(1) [OF v(2,3), of y] show ?thesis
      by (simp add: ymd2ord_def)
  qed
qed

lemma ymd2ord_upper:
  assumes "valid_year_month y m" "d \<le> lib_days_in_month y m"
  shows "ymd2ord y m d \<le> MAXORDINAL"
    and "(y, m) \<noteq> (9999, 12) \<Longrightarrow> ymd2ord y m d + 31 \<le> MAXORDINAL"
proof -
  from assms(1) have v: "y \<le> 9999" "1 \<le> m" "m \<le> 12" by (simp_all add: valid_year_month_def)
  note b = days_before_month_bounds [OF v(2,3), of y]
  have "ymd2ord y m d \<le> MAXORDINAL \<and> ((y, m) \<noteq> (9999, 12) \<longrightarrow> ymd2ord y m d + 31 \<le> MAXORDINAL)"
  proof (cases "y = 9999")
    case True
    with b(2,3) assms(2) show ?thesis
      by (auto simp: ymd2ord_def days_before_year_9999 is_leap_9999 MAXORDINAL_def)
  next
    case False
    with v(1) have "y \<le> 9998" by simp
    from days_before_year_upper [OF this] b(2) assms(2) show ?thesis
      by (auto simp: ymd2ord_def MAXORDINAL_def split: if_splits)
  qed
  then show "ymd2ord y m d \<le> MAXORDINAL"
    and "(y, m) \<noteq> (9999, 12) \<Longrightarrow> ymd2ord y m d + 31 \<le> MAXORDINAL" by simp_all
qed

section \<open>The local variables of get_iterable_days\<close>

lemma weekday_range: "0 \<le> weekday dt" "weekday dt \<le> 6"
  by (simp_all add: weekday_def)

lemma mdays_lib:
  assumes "1 \<le> m" "m \<le> 12"
  shows "mdays ! nat m + (if m = 2 \<and> isleap y then 1 else 0) = lib_days_in_month y m"
  using month_cases [OF assms]
  by (auto simp: mdays_def lib_days_in_month_def DAYS_IN_MONTH_def isleap_def is_leap_def)

lemma datetime_date_valid:
  assumes "valid_year_month y m" "1 \<le> d" "d \<le> lib_days_in_month y m"
  shows "datetime_date y m d = Inr \<lparr>year = y, month = m, day = d\<rparr>"
proof -
  from assms(1) have v: "1 \<le> m" "m \<le> 12" by (simp_all add: valid_year_month_def)
  from lib_days_in_month_bounds [OF v, of y] assms(3) have "d \<le> 31" by simp
  with assms show ?thesis
    by (simp add: datetime_date_def fits_c_int_def valid_year_month_def MINYEAR_def MAXYEAR_def)
qed

lemma monthrange_valid:
  assumes "valid_year_month y m"
  shows "monthrange y m =
    Inr (weekday \<lparr>year = y, month = m, day = 1\<rparr>, lib_days_in_month y m)"
proof -
  from assms have v: "1 \<le> m" "m \<le> 12" by (simp_all add: valid_year_month_def)
  from lib_days_in_month_bounds [OF v, of y] have "1 \<le> lib_days_in_month y m" by simp
  from datetime_date_valid [OF assms _ this] mdays_lib [OF v, of y] v show ?thesis
    by (simp add: monthrange_def calendar_weekday_def)
qed

lemma grid_start_pos:
  assumes "valid_year_month y m"
  shows "1 \<le> grid_start y m" "grid_start y m \<le> MAXORDINAL"
proof -
  define o1 where "o1 = ymd2ord y m 1"
  from assms have v: "1 \<le> m" "m \<le> 12" by (simp_all add: valid_year_month_def)
  from lib_days_in_month_bounds [OF v, of y] have d1: "1 \<le> lib_days_in_month y m" by simp
  have "1 \<le> o1" unfolding o1_def by (rule ymd2ord_lower [OF assms]) simp
  then have "(o1 + 6) mod 7 \<le> o1 - 1" by presburger
  then show "1 \<le> grid_start y m"
    by (simp add: grid_start_def weekday_def toordinal_def o1_def)
  have "0 \<le> (o1 + 6) mod 7" by simp
  with ymd2ord_upper(1) [OF assms d1] show "grid_start y m \<le> MAXORDINAL"
    by (simp add: grid_start_def weekday_def toordinal_def o1_def)
qed

lemma get_iterable_days_locals_valid:
  assumes "valid_year_month y m"
  shows "get_iterable_days_locals y m =
    Inr \<lparr>days_in_month = lib_days_in_month y m,
         first_day_of_month = \<lparr>year = y, month = m, day = 1\<rparr>,
         last_day_of_month = \<lparr>year = y, month = m, day = lib_days_in_month y m\<rparr>,
         first_day_of_calendar = fromordinal (grid_start y m),
         head_days = weekday \<lparr>year = y, month = m, day = 1\<rparr>,
         tail_days = 6 - weekday \<lparr>year = y, month = m, day = lib_days_in_month y m\<rparr>,
         total_days_in_calendar = grid_size y m\<rparr>"
proof -
  from assms have v: "1 \<le> m" "m \<le> 12" by (simp_all add: valid_year_month_def)
  from lib_days_in_month_bounds [OF v, of y] have d1: "1 \<le> lib_days_in_month y m" by simp
  have sub: "date_sub \<lparr>year = y, month = m, day = 1\<rparr> (weekday \<lparr>year = y, month = m, day = 1\<rparr>) =
    Inr (fromordinal (grid_start y m))"
    using grid_start_pos [OF assms]
    by (simp add: date_sub_def date_add_def Let_def grid_start_def toordinal_def)
  show ?thesis
    unfolding get_iterable_days_locals_def
    by (simp add: monthrange_valid [OF assms] datetime_date_valid [OF assms _ d1]
        datetime_date_valid [OF assms d1] sub grid_size_def Let_def)
qed

section \<open>The enumeration of the days\<close>

lemma grid_size_mod7:
  "grid_size y m mod 7 = 0"
proof -
  define o1 where "o1 = ymd2ord y m 1"
  define dim where "dim = lib_days_in_month y m"
  have "ymd2ord y m dim = o1 + dim - 1" unfolding o1_def by (rule ymd2ord_day)
  then have "grid_size y m = (o1 + 6) mod 7 + dim + (6 - (o1 + dim - 1 + 6) mod 7)"
    by (simp add: grid_size_def weekday_def toordinal_def o1_def dim_def)
  also have "\<dots> = 7 + 7 * ((o1 + dim - 1 + 6) div 7) - 7 * ((o1 + 6) div 7)"
    using mult_div_mod_eq [of 7 "o1 + 6"] mult_div_mod_eq [of 7 "o1 + dim - 1 + 6"] by linarith
  also have "\<dots> = 7 * (1 + (o1 + dim - 1 + 6) div 7 - (o1 + 6) div 7)"
    by (simp add: algebra_simps)
  also have "\<dots> mod 7 = 0" by (rule mod_mult_self1_is_0)
  finally show ?thesis .
qed

lemma grid_size_bounds:
  assumes "valid_year_month y m"
  shows "28 + weekday \<lparr>year = y, month = m, day = 1\<rparr> \<le> grid_size y m" "grid_size y m \<le> 42"
proof -
  from assms have v: "1 \<le> m" "m \<le> 12" by (simp_all add: valid_year_month_def)
  note d = lib_days_in_month_bounds [OF v, of y]
  note w1 = weekday_range [of "\<lparr>year = y, month = m, day = 1\<rparr>"]
  note w2 = weekday_range [of "\<lparr>year = y, month = m, day = lib_days_in_month y m\<rparr>"]
  from d w2 show "28 + weekday \<lparr>year = y, month = m, day = 1\<rparr> \<le> grid_size y m"
    by (simp add: grid_size_def)
  from d w1 w2 have "grid_size y m \<le> 43" by (simp add: grid_size_def)
  with grid_size_mod7 [of y m] show "grid_size y m \<le> 42" by presburger
qed

lemma yield_days_error:
  "yield_days first_cal is = Inl e \<Longrightarrow> e = OverflowError"
  by (induction "is") (auto simp: date_add_def Let_def split: if_splits sum.splits)

lemma yield_days_ok:
  assumes "\<forall>i \<in> set is. 0 < toordinal first_cal + i \<and> toordinal first_cal + i \<le> MAXORDINAL"
  shows "yield_days first_cal is = Inr (map (\<lambda>i. fromordinal (toordinal first_cal + i)) is)"
  using assms by (induction "is") (simp_all add: date_add_def Let_def)

lemma yield_days_overflow:
  assumes "i \<in> set is" "\<not> (0 < toordinal first_cal + i \<and> toordinal first_cal + i \<le> MAXORDINAL)"
  shows "yield_days first_cal is = Inl OverflowError"
  using assms
proof (induction "is")
  case Nil
  then show ?case by simp
next
  case (Cons j js)
  show ?case
  proof (cases "yield_days first_cal (j # js)")
    case (Inl e)
    with yield_days_error [OF Inl] show ?thesis by simp
  next
    case (Inr ds)
    then have h: "0 < toordinal first_cal + j \<and> toordinal first_cal + j \<le> MAXORDINAL"
      and r: "\<exists>ds'. yield_days first_cal js = Inr ds'"
      by (auto simp: date_add_def Let_def split: if_splits sum.splits)
    from h Cons.prems have "i \<in> set js" by auto
    from Cons.IH [OF this Cons.prems(2)] r show ?thesis by simp
  qed
qed

lemma get_iterable_days_no_assertion:
  "get_iterable_days y m \<noteq> Inl AssertionError"
proof
  assume a: "get_iterable_days y m = Inl AssertionError"
  show False
  proof (cases "get_iterable_days_locals y m")
    case (Inl e)
    with a have e: "e = AssertionError" by (simp add: get_iterable_days_def)
    from Inl [unfolded e] show False
      by (auto simp: get_iterable_days_locals_def monthrange_def calendar_weekday_def ebind_def
          datetime_date_def fits_c_int_def date_sub_def date_add_def Let_def split: if_splits sum.splits)
  next
    case (Inr l)
    show False
    proof (cases "valid_year_month y m")
      case True
      from get_iterable_days_locals_valid [OF True] Inr grid_size_mod7 [of y m] a
      have "yield_days (first_day_of_calendar l) (range_int (total_days_in_calendar l)) =
              Inl AssertionError"
        by (auto simp: get_iterable_days_def)
      from yield_days_error [OF this] show False by simp
    next
      case False
      with Inr show False
        by (auto simp: get_iterable_days_locals_def monthrange_def calendar_weekday_def ebind_def
          datetime_date_def fits_c_int_def valid_year_month_def MINYEAR_def MAXYEAR_def split: if_splits sum.splits)
    qed
  qed
qed

text \<open>The cells of the grid are dates, and their ordinals count up from the first cell.\<close>

lemma weekday_first_of_year_1: "weekday \<lparr>year = 1, month = 1, day = 1\<rparr> = 0"
  by (simp add: weekday_def toordinal_def ymd2ord_def days_before_year_def days_before_month_def
      DAYS_BEFORE_MONTH_def)

lemma prev_month_valid:
  assumes "valid_year_month y m" "(y, m) \<noteq> (1, 1)"
  shows "1 \<le> fst (prev_month y m)" "1 \<le> snd (prev_month y m)" "snd (prev_month y m) \<le> 12"
  using assms by (auto simp: prev_month_def valid_year_month_def)

lemma next_month_valid:
  assumes "valid_year_month y m"
  shows "1 \<le> fst (next_month y m)" "1 \<le> snd (next_month y m)" "snd (next_month y m) \<le> 12"
  using assms by (auto simp: next_month_def valid_year_month_def)

lemma grid_date_ordinal:
  assumes v: "valid_year_month y m" and i: "0 \<le> i" "i < grid_size y m"
  shows "toordinal (grid_date y m i) = grid_start y m + i"
    and "fromordinal (grid_start y m + i) = grid_date y m i"
proof -
  define h where "h = weekday \<lparr>year = y, month = m, day = 1\<rparr>"
  define dim where "dim = lib_days_in_month y m"
  define py pm where "py = fst (prev_month y m)" and "pm = snd (prev_month y m)"
  define ny nm where "ny = fst (next_month y m)" and "nm = snd (next_month y m)"
  define dimp where "dimp = lib_days_in_month py pm"
  from v have vm: "1 \<le> y" "1 \<le> m" "m \<le> 12" by (simp_all add: valid_year_month_def)
  have h: "0 \<le> h" "h \<le> 6" unfolding h_def by (rule weekday_range)+
  have dim: "28 \<le> dim" "dim \<le> 31" unfolding dim_def using lib_days_in_month_bounds [OF vm(2,3)] by simp_all
  have gs: "grid_start y m = ymd2ord y m 1 - h" by (simp add: grid_start_def h_def)
  have tail: "grid_size y m \<le> h + dim + 6"
    using weekday_range(1) [of "\<lparr>year = y, month = m, day = lib_days_in_month y m\<rparr>"]
    by (simp add: grid_size_def h_def dim_def)
  have valid_date: "toordinal \<lparr>year = y', month = m', day = d'\<rparr> = grid_start y m + i \<and>
      fromordinal (grid_start y m + i) = \<lparr>year = y', month = m', day = d'\<rparr>"
    if "1 \<le> y'" "1 \<le> m'" "m' \<le> 12" "1 \<le> d'" "d' \<le> lib_days_in_month y' m'"
      "ymd2ord y' m' d' = grid_start y m + i" for y' m' d'
    using ord2ymd_ymd2ord [OF that(1-5)] that(6) by (simp add: toordinal_def fromordinal_def)
  have "toordinal (grid_date y m i) = grid_start y m + i \<and>
        fromordinal (grid_start y m + i) = grid_date y m i"
  proof (cases "i < h")
    case True
    with i h have hpos: "0 < h" by simp
    have ne: "(y, m) \<noteq> (1, 1)"
      using hpos weekday_first_of_year_1 by (auto simp: h_def)
    note pv = prev_month_valid [OF v ne, folded py_def pm_def]
    have dimp: "28 \<le> dimp" unfolding dimp_def using lib_days_in_month_bounds [OF pv(2,3)] by simp
    have g: "grid_date y m i = \<lparr>year = py, month = pm, day = dimp - h + 1 + i\<rparr>"
      using True by (simp add: grid_date_def Let_def h_def py_def pm_def dimp_def)
    have "ymd2ord py pm dimp + 1 = ymd2ord y m 1"
      unfolding py_def pm_def dimp_def by (rule ymd2ord_prev_month [OF vm(2,3)])
    then have o: "ymd2ord py pm (dimp - h + 1 + i) = grid_start y m + i"
      using ymd2ord_day [of py pm dimp] ymd2ord_day [of py pm "dimp - h + 1 + i"] gs by simp
    show ?thesis unfolding g
      by (rule valid_date [OF pv _ _ o]) (use True i h dimp in \<open>simp_all add: dimp_def\<close>)
  next
    case False
    show ?thesis
    proof (cases "i < h + dim")
      case True
      have g: "grid_date y m i = \<lparr>year = y, month = m, day = i - h + 1\<rparr>"
        using True False by (simp add: grid_date_def Let_def h_def dim_def)
      have o: "ymd2ord y m (i - h + 1) = grid_start y m + i"
        using ymd2ord_day [of y m "i - h + 1"] gs by simp
      show ?thesis unfolding g
        by (rule valid_date [OF vm _ _ o]) (use True False in \<open>simp_all add: dim_def\<close>)
    next
      case F2: False
      note nv = next_month_valid [OF v, folded ny_def nm_def]
      have g: "grid_date y m i = \<lparr>year = ny, month = nm, day = i - h - dim + 1\<rparr>"
        using False F2 by (simp add: grid_date_def Let_def h_def dim_def ny_def nm_def)
      have "ymd2ord ny nm 1 = ymd2ord y m dim + 1"
        unfolding ny_def nm_def dim_def by (rule ymd2ord_next_month [OF vm(2,3)])
      then have o: "ymd2ord ny nm (i - h - dim + 1) = grid_start y m + i"
        using ymd2ord_day [of ny nm "i - h - dim + 1"] ymd2ord_day [of y m dim] gs by simp
      have "28 \<le> lib_days_in_month ny nm" using lib_days_in_month_bounds [OF nv(2,3)] by simp
      then show ?thesis unfolding g
        by (intro valid_date [OF nv _ _ o]) (use F2 i tail in simp_all)
    qed
  qed
  then show "toordinal (grid_date y m i) = grid_start y m + i"
    and "fromordinal (grid_start y m + i) = grid_date y m i" by simp_all
qed

lemma get_iterable_days_yield:
  assumes "valid_year_month y m"
  shows "get_iterable_days y m =
    yield_days (fromordinal (grid_start y m)) (range_int (grid_size y m))"
  using grid_size_mod7 [of y m]
  by (simp add: get_iterable_days_def get_iterable_days_locals_valid [OF assms])

lemma toordinal_grid_start:
  assumes "valid_year_month y m"
  shows "toordinal (fromordinal (grid_start y m)) = grid_start y m"
proof -
  from grid_size_bounds(1) [OF assms] weekday_range(1) [of "\<lparr>year = y, month = m, day = 1\<rparr>"]
  have "0 < grid_size y m" by linarith
  from grid_date_ordinal [OF assms _ this] show ?thesis by simp
qed

lemma grid_last_ordinal:
  "grid_start y m + grid_size y m - 1 =
   ymd2ord y m (lib_days_in_month y m) +
     (6 - weekday \<lparr>year = y, month = m, day = lib_days_in_month y m\<rparr>)"
  using ymd2ord_day [of y m "lib_days_in_month y m"]
  by (simp add: grid_start_def grid_size_def)

lemma get_iterable_days_valid:
  assumes "valid_year_month y m" "(y, m) \<noteq> (9999, 12)"
  shows "get_iterable_days y m = Inr (grid_days y m)"
proof -
  let ?f = "fromordinal (grid_start y m)"
  have top: "grid_start y m + grid_size y m - 1 \<le> MAXORDINAL"
    using ymd2ord_upper(2) [OF assms(1) order_refl assms(2)]
      weekday_range(1) [of "\<lparr>year = y, month = m, day = lib_days_in_month y m\<rparr>"]
    unfolding grid_last_ordinal by linarith
  have "\<forall>i \<in> set (range_int (grid_size y m)). 0 < toordinal ?f + i \<and> toordinal ?f + i \<le> MAXORDINAL"
    using grid_start_pos(1) [OF assms(1)] top
    by (auto simp: range_int_def toordinal_grid_start [OF assms(1)])
  from yield_days_ok [OF this]
  have "get_iterable_days y m =
      Inr (map (\<lambda>i. fromordinal (grid_start y m + i)) (range_int (grid_size y m)))"
    by (simp add: get_iterable_days_yield [OF assms(1)] toordinal_grid_start [OF assms(1)])
  also have "map (\<lambda>i. fromordinal (grid_start y m + i)) (range_int (grid_size y m)) = grid_days y m"
    unfolding range_int_def grid_days_def map_map
    by (rule map_cong [OF refl]) (simp add: grid_date_ordinal(2) [OF assms(1)])
  finally show ?thesis .
qed

lemma valid_9999_12: "valid_year_month 9999 12"
  by (simp add: valid_year_month_def)

lemma grid_9999_12: "grid_start 9999 12 = 3652027" "grid_size 9999 12 = 35"
  by (simp_all add: grid_start_def grid_size_def weekday_def toordinal_def ymd2ord_def
      days_before_year_def days_before_month_def lib_days_in_month_def is_leap_def
      DAYS_BEFORE_MONTH_def DAYS_IN_MONTH_def)

lemma get_iterable_days_9999_12: "get_iterable_days 9999 12 = Inl OverflowError"
proof -
  have "34 \<in> set (range_int (grid_size 9999 12))"
    by (simp add: grid_9999_12 range_int_def image_iff)
  moreover have "\<not> (0 < toordinal (fromordinal (grid_start 9999 12)) + 34 \<and>
      toordinal (fromordinal (grid_start 9999 12)) + 34 \<le> MAXORDINAL)"
    by (simp add: toordinal_grid_start [OF valid_9999_12, unfolded grid_9999_12] grid_9999_12
        MAXORDINAL_def)
  ultimately show ?thesis
    unfolding get_iterable_days_yield [OF valid_9999_12] by (rule yield_days_overflow)
qed

lemma get_iterable_days_Inr:
  assumes "valid_year_month y m" "get_iterable_days y m = Inr ds"
  shows "ds = grid_days y m" "(y, m) \<noteq> (9999, 12)"
proof -
  show ne: "(y, m) \<noteq> (9999, 12)" using assms(2) get_iterable_days_9999_12 by auto
  from get_iterable_days_valid [OF assms(1) ne] assms(2) show "ds = grid_days y m" by simp
qed

section \<open>The weeks\<close>

lemma week_loop_concat:
  "week_loop ebd m ds (week, cal) = (week', cal') \<Longrightarrow>
   concat cal' @ week' = concat cal @ week @ map (make_cal_day ebd m) ds"
  by (induction ds arbitrary: week cal) (auto simp: Let_def split: if_splits)

lemma week_loop_no_sunday:
  "\<forall>d \<in> set xs. weekday d \<noteq> 6 \<Longrightarrow>
   week_loop ebd m (xs @ rest) (week, cal) =
   week_loop ebd m rest (week @ map (make_cal_day ebd m) xs, cal)"
  by (induction xs arbitrary: week) (simp_all add: Let_def)

lemma week_loop_one_week:
  assumes "length w = 7" "\<forall>i<7. weekday (w ! i) = int i"
  shows "week_loop ebd m (w @ rest) ([], cal) =
         week_loop ebd m rest ([], cal @ [map (make_cal_day ebd m) w])"
proof -
  have w: "w = take 6 w @ [w ! 6]"
    using take_Suc_conv_app_nth [of 6 w] assms(1) by simp
  have ns: "\<forall>d \<in> set (take 6 w). weekday d \<noteq> 6"
  proof
    fix d assume "d \<in> set (take 6 w)"
    then obtain i where "i < 6" "d = w ! i"
      using assms(1) by (auto simp: in_set_conv_nth)
    with assms(2) show "weekday d \<noteq> 6" by simp
  qed
  have s: "weekday (w ! 6) = 6" using assms(2) by simp
  have "week_loop ebd m (w @ rest) ([], cal) =
        week_loop ebd m (take 6 w @ (w ! 6 # rest)) ([], cal)"
    by (subst w) simp
  also have "\<dots> = week_loop ebd m (w ! 6 # rest) (map (make_cal_day ebd m) (take 6 w), cal)"
    using week_loop_no_sunday [OF ns, of ebd m "w ! 6 # rest" "[]" cal] by simp
  also have "\<dots> = week_loop ebd m rest
      ([], cal @ [map (make_cal_day ebd m) (take 6 w) @ [make_cal_day ebd m (w ! 6)]])"
    using s by (simp add: Let_def)
  also have "map (make_cal_day ebd m) (take 6 w) @ [make_cal_day ebd m (w ! 6)] =
      map (make_cal_day ebd m) w"
    by (subst (3) w) simp
  finally show ?thesis .
qed

lemma week_loop_weeks:
  assumes "length ds = 7 * k" "\<forall>i < 7 * k. weekday (ds ! i) = int (i mod 7)"
  shows "week_loop ebd m ds ([], cal) =
    ([], cal @ map (\<lambda>j. map (make_cal_day ebd m) (take 7 (drop (7 * j) ds))) [0..<k])"
  using assms
proof (induction k arbitrary: ds cal)
  case 0
  then show ?case by simp
next
  case (Suc k)
  let ?w = "take 7 ds" and ?r = "drop 7 ds"
  have lw: "length ?w = 7" using Suc.prems(1) by simp
  have ww: "\<forall>i<7. weekday (?w ! i) = int i" using Suc.prems(2) by simp
  have lr: "length ?r = 7 * k" using Suc.prems(1) by simp
  have wr: "\<forall>i < 7 * k. weekday (?r ! i) = int (i mod 7)"
  proof (intro allI impI)
    fix i assume "i < 7 * k"
    then have "weekday (ds ! (7 + i)) = int ((7 + i) mod 7)" using Suc.prems(2) by simp
    then show "weekday (?r ! i) = int (i mod 7)" using Suc.prems(1) by simp
  qed
  have "week_loop ebd m ds ([], cal) = week_loop ebd m (?w @ ?r) ([], cal)" by simp
  also have "\<dots> = week_loop ebd m ?r ([], cal @ [map (make_cal_day ebd m) ?w])"
    by (rule week_loop_one_week [OF lw ww])
  also have "\<dots> = ([], (cal @ [map (make_cal_day ebd m) ?w]) @
      map (\<lambda>j. map (make_cal_day ebd m) (take 7 (drop (7 * j) ?r))) [0..<k])"
    by (rule Suc.IH [OF lr wr])
  also have "(cal @ [map (make_cal_day ebd m) ?w]) @
      map (\<lambda>j. map (make_cal_day ebd m) (take 7 (drop (7 * j) ?r))) [0..<k] =
    cal @ map (\<lambda>j. map (make_cal_day ebd m) (take 7 (drop (7 * j) ds))) [0..<Suc k]"
    by (simp add: map_upt_Suc add.commute del: upt_Suc)
  finally show ?case .
qed

section \<open>The neighbouring months\<close>

lemma get_prev_next_months_valid:
  assumes "valid_year_month y m" and "(y, m) \<noteq> (1, 1)" and "(y, m) \<noteq> (9999, 12)"
  shows "get_prev_next_months y m =
    Inr (\<lparr>year = (if m = 1 then y - 1 else y), month = (if m = 1 then 12 else m - 1), day = 1\<rparr>,
         \<lparr>year = (if m = 12 then y + 1 else y), month = (if m = 12 then 1 else m + 1), day = 1\<rparr>)"
proof -
  have dim: "1 \<le> lib_days_in_month y' m'" if "1 \<le> m'" "m' \<le> 12" for y' m'
    using lib_days_in_month_bounds [OF that, of y'] by simp
  show ?thesis
    using assms
    by (auto simp: get_prev_next_months_def valid_year_month_def datetime_date_def fits_c_int_def
        MINYEAR_def MAXYEAR_def dim)
qed

lemma get_prev_next_months_1_1: "get_prev_next_months 1 1 = Inl ValueError"
  by (simp add: get_prev_next_months_def datetime_date_def fits_c_int_def MINYEAR_def)

lemma get_prev_next_months_9999_12: "get_prev_next_months 9999 12 = Inl ValueError"
  by (simp add: get_prev_next_months_def datetime_date_def fits_c_int_def MINYEAR_def MAXYEAR_def
      lib_days_in_month_def DAYS_IN_MONTH_def)

section \<open>The grid of gencal\<close>

lemma length_grid_days: "length (grid_days y m) = nat (grid_size y m)"
  by (simp add: grid_days_def)

lemma grid_days_nth:
  "i < nat (grid_size y m) \<Longrightarrow> grid_days y m ! i = grid_date y m (int i)"
  by (simp add: grid_days_def)

lemma weekday_grid_date:
  assumes "valid_year_month y m" "0 \<le> i" "i < grid_size y m"
  shows "weekday (grid_date y m i) = i mod 7"
proof -
  define o1 where "o1 = ymd2ord y m 1"
  have "weekday (grid_date y m i) = (grid_start y m + i + 6) mod 7"
    unfolding weekday_def [of "grid_date y m i"] grid_date_ordinal(1) [OF assms] ..
  also have "\<dots> = (o1 - (o1 + 6) mod 7 + i + 6) mod 7"
    by (simp add: grid_start_def weekday_def toordinal_def o1_def)
  also have "o1 - (o1 + 6) mod 7 + i + 6 = 7 * ((o1 + 6) div 7) + i"
    using mult_div_mod_eq [of 7 "o1 + 6"] by linarith
  also have "\<dots> mod 7 = i mod 7" by simp
  finally show ?thesis .
qed

lemma grid_size_weeks:
  "nat (grid_size y m) = 7 * (nat (grid_size y m) div 7)"
proof -
  from grid_size_mod7 [of y m] have "7 dvd grid_size y m" by (simp add: dvd_eq_mod_eq_0)
  then obtain k where k: "grid_size y m = 7 * k" ..
  have "nat (grid_size y m) = 7 * nat k" unfolding k by (simp add: nat_mult_distrib)
  then show ?thesis by simp
qed

lemma week_loop_grid:
  assumes "valid_year_month y m"
  shows "week_loop ebd m (grid_days y m) ([], []) = ([], grid_weeks ebd y m)"
proof -
  let ?k = "nat (grid_size y m) div 7"
  have l: "length (grid_days y m) = 7 * ?k"
    using grid_size_weeks [of y m] by (simp add: length_grid_days)
  have w: "\<forall>i < 7 * ?k. weekday (grid_days y m ! i) = int (i mod 7)"
  proof (intro allI impI)
    fix i assume "i < 7 * ?k"
    then have i: "i < nat (grid_size y m)" using grid_size_weeks [of y m] by simp
    then have "int i < grid_size y m" by simp
    from weekday_grid_date [OF assms _ this] i show "weekday (grid_days y m ! i) = int (i mod 7)"
      by (simp add: grid_days_nth zmod_int)
  qed
  from week_loop_weeks [OF l w, of ebd m "[]"] show ?thesis by (simp add: grid_weeks_def)
qed

lemma concat_grid_weeks:
  assumes "valid_year_month y m"
  shows "concat (grid_weeks ebd y m) = map (make_cal_day ebd m) (grid_days y m)"
  using week_loop_concat [OF week_loop_grid [OF assms, of ebd]] by simp

lemma get_iterable_days_Inr_valid:
  assumes "get_iterable_days y m = Inr ds"
  shows "valid_year_month y m"
proof -
  from assms obtain l where "get_iterable_days_locals y m = Inr l"
    by (cases "get_iterable_days_locals y m") (simp_all add: get_iterable_days_def)
  then have m: "1 \<le> m \<and> m \<le> 12" and "\<exists>f. datetime_date y m 1 = Inr f"
    by (auto simp: get_iterable_days_locals_def monthrange_def calendar_weekday_def ebind_def
        split: if_splits sum.splits)
  then show ?thesis
    by (auto simp: valid_year_month_def datetime_date_def fits_c_int_def MINYEAR_def MAXYEAR_def
        split: if_splits)
qed

lemma gencal_events_error:
  "get_events_by_day items = Inl e \<Longrightarrow> gencal d items = Inl e"
  by (simp add: gencal_def)

lemma gencal_valid:
  assumes "valid_year_month (year d) (month d)"
    and "(year d, month d) \<noteq> (1, 1)" and "(year d, month d) \<noteq> (9999, 12)"
    and "get_events_by_day items = Inr ebd"
  shows "gencal d items =
    Inr \<lparr>month_cal = grid_weeks ebd (year d) (month d), headers = week_headers, date_obj = d,
         prev_date = fst (projr (get_prev_next_months (year d) (month d))),
         next_date = snd (projr (get_prev_next_months (year d) (month d)))\<rparr>"
  by (simp add: gencal_def Let_def assms(4) get_iterable_days_valid [OF assms(1,3)]
      week_loop_grid [OF assms(1)] get_prev_next_months_valid [OF assms(1-3)])

lemma gencal_Inr_D:
  assumes "gencal d items = Inr ctx"
  shows "valid_year_month (year d) (month d)"
    and "(year d, month d) \<noteq> (1, 1)" and "(year d, month d) \<noteq> (9999, 12)"
    and "\<exists>ebd. get_events_by_day items = Inr ebd \<and>
           month_cal ctx = grid_weeks ebd (year d) (month d)"
proof -
  from assms obtain ebd where e: "get_events_by_day items = Inr ebd"
    by (cases "get_events_by_day items") (simp_all add: gencal_def)
  from assms e obtain ds where ds: "get_iterable_days (year d) (month d) = Inr ds"
    by (cases "get_iterable_days (year d) (month d)") (simp_all add: gencal_def)
  from assms e ds obtain pn where pn: "get_prev_next_months (year d) (month d) = Inr pn"
    by (cases "get_prev_next_months (year d) (month d)")
      (simp_all add: gencal_def split: prod.splits)
  show v: "valid_year_month (year d) (month d)" by (rule get_iterable_days_Inr_valid [OF ds])
  show n1: "(year d, month d) \<noteq> (1, 1)"
    using pn get_prev_next_months_1_1 by auto
  show n2: "(year d, month d) \<noteq> (9999, 12)" by (rule get_iterable_days_Inr(2) [OF v ds])
  from gencal_valid [OF v n1 n2 e] assms e
  show "\<exists>ebd. get_events_by_day items = Inr ebd \<and>
           month_cal ctx = grid_weeks ebd (year d) (month d)" by auto
qed

section \<open>The grouping of the events\<close>

lemma event_entry_Inr:
  assumes "event_entry ev = Inr (dd, g)"
  shows "item_date ev = Some dd" "is_entry_of g ev"
proof -
  from assms obtain v where v: "ev ''day'' = Some v"
    by (cases "ev ''day''") (simp_all add: event_entry_def getitem_def)
  from assms v obtain a where a: "date_attrs v = Inr a"
    by (cases "date_attrs v") (simp_all add: event_entry_def getitem_def)
  from a obtain dt where dt: "a = (year dt, month dt, day dt)" "item_date ev = Some dt"
    by (cases v) (auto simp: item_date_def v)
  from assms v a dt(1) have "datetime_date (year dt) (month dt) (day dt) = Inr dd"
    by (cases "datetime_date (year dt) (month dt) (day dt)")
       (auto simp: event_entry_def getitem_def ebind_def split: option.splits)
  then have "dd = dt" by (auto simp: datetime_date_def fits_c_int_def split: if_splits)
  with dt(2) show "item_date ev = Some dd" by simp
  from assms v show "is_entry_of g ev"
    by (auto simp: event_entry_def getitem_def ebind_def is_entry_of_def
        split: option.splits sum.splits prod.splits)
qed

lemma event_entry_error:
  assumes "event_entry ev = Inl e"
  shows "e = KeyError \<or> e = AttributeError \<or> e = ValueError \<or> e = OverflowError"
proof -
  have d: "e' = ValueError \<or> e' = OverflowError" if "datetime_date a b c = Inl e'" for a b c e'
    using that by (auto simp: datetime_date_def fits_c_int_def split: if_splits)
  have t: "e' = AttributeError" if "date_attrs v = Inl e'" for v e'
    using that by (cases v) auto
  from assms show ?thesis
    by (auto simp: event_entry_def getitem_def ebind_def
        split: option.splits sum.splits prod.splits dest: d t)
qed

lemma event_entry_day_error:
  assumes "day_error ev = Some e"
  shows "event_entry ev = Inl e"
proof (cases "ev ''day''")
  case None
  with assms show ?thesis by (simp add: day_error_def event_entry_def getitem_def)
next
  case (Some v)
  show ?thesis
  proof (cases "item_date ev")
    case None
    with Some have "date_attrs v = Inl AttributeError"
      by (cases v) (simp_all add: item_date_def)
    with Some None assms show ?thesis
      by (simp add: day_error_def event_entry_def getitem_def)
  next
    case (Some dt)
    with \<open>ev ''day'' = Some v\<close> have a: "date_attrs v = Inr (year dt, month dt, day dt)"
      by (cases v) (simp_all add: item_date_def)
    from assms \<open>ev ''day'' = Some v\<close> Some
    have "datetime_date (year dt) (month dt) (day dt) = Inl e"
      by (auto simp: day_error_def datetime_date_def MINYEAR_def MAXYEAR_def split: if_splits)
    with a \<open>ev ''day'' = Some v\<close> show ?thesis
      by (simp add: event_entry_def getitem_def)
  qed
qed

lemma event_entry_Inr_day_ok:
  assumes "event_entry ev = Inr r"
  shows "day_error ev = None"
proof (cases "day_error ev")
  case None
  then show ?thesis .
next
  case (Some e)
  from event_entry_day_error [OF this] assms show ?thesis by simp
qed

lemma group_events_append:
  "group_events ebd (xs @ ys) = ebind (group_events ebd xs) (\<lambda>e1. group_events e1 ys)"
  by (induction xs arbitrary: ebd) (auto split: sum.splits)

lemma group_events_Inr:
  assumes "group_events ebd items = Inr ebd'"
  shows "\<exists>new. ebd' dd = ebd dd @ new \<and>
           list_all2 is_entry_of new (filter (\<lambda>ev. item_date ev = Some dd) items)"
  using assms
proof (induction items arbitrary: ebd)
  case Nil
  then show ?case by simp
next
  case (Cons ev rest)
  from Cons.prems obtain d0 g where e: "event_entry ev = Inr (d0, g)"
    and r: "group_events (ebd(d0 := ebd d0 @ [g])) rest = Inr ebd'"
    by (auto split: sum.splits)
  from Cons.IH [OF r] obtain new where
    n: "ebd' dd = (ebd(d0 := ebd d0 @ [g])) dd @ new"
      "list_all2 is_entry_of new (filter (\<lambda>ev. item_date ev = Some dd) rest)"
    by blast
  note ee = event_entry_Inr [OF e]
  show ?case
  proof (cases "dd = d0")
    case True
    with n ee have "ebd' dd = ebd dd @ (g # new)"
      "list_all2 is_entry_of (g # new) (filter (\<lambda>ev. item_date ev = Some dd) (ev # rest))"
      by simp_all
    then show ?thesis by blast
  next
    case False
    with n ee have "ebd' dd = ebd dd @ new"
      "list_all2 is_entry_of new (filter (\<lambda>ev. item_date ev = Some dd) (ev # rest))"
      by auto
    then show ?thesis by blast
  qed
qed

lemma group_events_Inr_all:
  assumes "group_events ebd items = Inr ebd'" "ev \<in> set items"
  shows "\<exists>r. event_entry ev = Inr r"
  using assms by (induction items arbitrary: ebd) (auto split: sum.splits)

lemma group_events_error:
  assumes "group_events ebd items = Inl e"
  shows "e = KeyError \<or> e = AttributeError \<or> e = ValueError \<or> e = OverflowError"
  using assms
  by (induction items arbitrary: ebd) (auto split: sum.splits dest: event_entry_error)

lemma group_events_first_error:
  assumes "\<forall>x \<in> set xs. \<exists>r. event_entry x = Inr r" "event_entry ev = Inl e"
  shows "group_events ebd (xs @ ev # ys) = Inl e"
  using assms by (induction xs arbitrary: ebd) (auto split: sum.splits)

lemma group_events_from_empty:
  "group_events ebd items =
   map_sum id (\<lambda>new d. ebd d @ new d) (group_events (\<lambda>d. []) items)"
proof (induction items arbitrary: ebd)
  case Nil
  then show ?case by simp
next
  case (Cons ev rest)
  show ?case
  proof (cases "event_entry ev")
    case (Inl e)
    then show ?thesis by simp
  next
    case (Inr r)
    obtain d0 g where r: "r = (d0, g)" by (cases r)
    have "group_events ebd (ev # rest) = group_events (ebd(d0 := ebd d0 @ [g])) rest"
      using Inr r by simp
    also have "\<dots> =
        map_sum id (\<lambda>new d. (ebd(d0 := ebd d0 @ [g])) d @ new d) (group_events (\<lambda>d. []) rest)"
      by (rule Cons.IH)
    finally have 1: "group_events ebd (ev # rest) =
        map_sum id (\<lambda>new d. (ebd(d0 := ebd d0 @ [g])) d @ new d) (group_events (\<lambda>d. []) rest)" .
    have "group_events (\<lambda>d. []) (ev # rest) = group_events ((\<lambda>d. [])(d0 := [g])) rest"
      using Inr r by simp
    also have "\<dots> =
        map_sum id (\<lambda>new d. ((\<lambda>d. [])(d0 := [g])) d @ new d) (group_events (\<lambda>d. []) rest)"
      by (rule Cons.IH)
    finally have 2: "group_events (\<lambda>d. []) (ev # rest) =
        map_sum id (\<lambda>new d. ((\<lambda>d. [])(d0 := [g])) d @ new d) (group_events (\<lambda>d. []) rest)" .
    show ?thesis unfolding 1 2
      by (cases "group_events (\<lambda>d. []) rest") (auto simp: fun_eq_iff)
  qed
qed

lemma get_events_by_day_insert:
  assumes "event_entry ev = Inr (dd, g)"
  shows "case get_events_by_day (xs @ ys) of
           Inl e \<Rightarrow> get_events_by_day (xs @ ev # ys) = Inl e
         | Inr ebd \<Rightarrow> \<exists>ebd'. get_events_by_day (xs @ ev # ys) = Inr ebd' \<and>
                        (\<forall>d. d \<noteq> dd \<longrightarrow> ebd' d = ebd d)"
proof (cases "group_events (\<lambda>d. []) xs")
  case (Inl e)
  then show ?thesis by (simp add: get_events_by_day_def group_events_append)
next
  case (Inr e1)
  have "get_events_by_day (xs @ ys) = group_events e1 ys"
    using Inr by (simp add: get_events_by_day_def group_events_append)
  also have "\<dots> = map_sum id (\<lambda>new d. e1 d @ new d) (group_events (\<lambda>d. []) ys)"
    by (rule group_events_from_empty)
  finally have a: "get_events_by_day (xs @ ys) =
      map_sum id (\<lambda>new d. e1 d @ new d) (group_events (\<lambda>d. []) ys)" .
  have "get_events_by_day (xs @ ev # ys) = group_events (e1(dd := e1 dd @ [g])) ys"
    using Inr assms by (simp add: get_events_by_day_def group_events_append)
  also have "\<dots> =
      map_sum id (\<lambda>new d. (e1(dd := e1 dd @ [g])) d @ new d) (group_events (\<lambda>d. []) ys)"
    by (rule group_events_from_empty)
  finally have b: "get_events_by_day (xs @ ev # ys) =
      map_sum id (\<lambda>new d. (e1(dd := e1 dd @ [g])) d @ new d) (group_events (\<lambda>d. []) ys)" .
  show ?thesis unfolding a b by (cases "group_events (\<lambda>d. []) ys") simp_all
qed

lemma week_loop_cong_days:
  assumes "\<forall>d \<in> set ds. ebd d = ebd' d"
  shows "week_loop ebd m ds (week, cal) = week_loop ebd' m ds (week, cal)"
  using assms
  by (induction ds arbitrary: week cal) (simp_all add: Let_def make_cal_day_def)

section \<open>The cells of the grid\<close>

lemma cells_gencal:
  assumes "gencal d items = Inr ctx"
  shows "\<exists>ebd. get_events_by_day items = Inr ebd \<and>
    cells ctx = map (make_cal_day ebd (month d)) (grid_days (year d) (month d))"
  using gencal_Inr_D(4) [OF assms] concat_grid_weeks [OF gencal_Inr_D(1) [OF assms]]
  by (auto simp: cells_def)

lemma get_iterable_days_bad_month:
  "\<not> (1 \<le> m \<and> m \<le> 12) \<Longrightarrow> get_iterable_days y m = Inl IllegalMonthError"
  by (simp add: get_iterable_days_def get_iterable_days_locals_def monthrange_def)

lemma grid_date_cases:
  fixes y m i :: int
  defines "h \<equiv> weekday \<lparr>year = y, month = m, day = 1\<rparr>"
    and "dim \<equiv> lib_days_in_month y m"
    and "dimp \<equiv> lib_days_in_month (fst (prev_month y m)) (snd (prev_month y m))"
  shows "(i < h \<and> (year (grid_date y m i), month (grid_date y m i)) = prev_month y m \<and>
            day (grid_date y m i) = dimp - h + 1 + i) \<or>
         (h \<le> i \<and> i < h + dim \<and> (year (grid_date y m i), month (grid_date y m i)) = (y, m) \<and>
            day (grid_date y m i) = i - h + 1) \<or>
         (h + dim \<le> i \<and> (year (grid_date y m i), month (grid_date y m i)) = next_month y m \<and>
            day (grid_date y m i) = i - h - dim + 1)"
  by (simp add: grid_date_def Let_def h_def dim_def dimp_def)

lemma neighbour_months_differ:
  "snd (prev_month y m) \<noteq> m \<or> \<not> (1 \<le> m \<and> m \<le> 12)"
  "snd (next_month y m) \<noteq> m \<or> \<not> (1 \<le> m \<and> m \<le> 12)"
  by (auto simp: prev_month_def next_month_def)

lemma grid_days_set:
  "dt \<in> set (grid_days y m) \<longleftrightarrow> (\<exists>i. 0 \<le> i \<and> i < grid_size y m \<and> dt = grid_date y m i)"
proof
  assume "dt \<in> set (grid_days y m)"
  then obtain n where "n < nat (grid_size y m)" "dt = grid_date y m (int n)"
    by (auto simp: grid_days_def)
  then show "\<exists>i. 0 \<le> i \<and> i < grid_size y m \<and> dt = grid_date y m i"
    by (intro exI [of _ "int n"]) auto
next
  assume "\<exists>i. 0 \<le> i \<and> i < grid_size y m \<and> dt = grid_date y m i"
  then obtain i where i: "0 \<le> i" "i < grid_size y m" "dt = grid_date y m i" by blast
  then have n: "nat i < nat (grid_size y m)" and "dt = grid_date y m (int (nat i))" by simp_all
  then have "dt = grid_days y m ! nat i" by (simp add: grid_days_nth)
  with n show "dt \<in> set (grid_days y m)" by (simp add: length_grid_days)
qed

lemma grid_days_months:
  assumes "dt \<in> set (grid_days y m)"
  shows "(year dt, month dt) = prev_month y m \<or> (year dt, month dt) = (y, m) \<or>
         (year dt, month dt) = next_month y m"
proof -
  from assms obtain i where "dt = grid_date y m i" unfolding grid_days_set by blast
  with grid_date_cases [of i y m] show ?thesis by auto
qed

lemma grid_days_same_month:
  assumes "valid_year_month y m" "dt \<in> set (grid_days y m)" "month dt = m"
  shows "year dt = y"
proof -
  from assms(1) have "1 \<le> m \<and> m \<le> 12" by (simp add: valid_year_month_def)
  with grid_days_months [OF assms(2)] assms(3) neighbour_months_differ [of y m]
  show ?thesis by (auto simp: prod_eq_iff)
qed

section \<open>Evaluation at given months\<close>

lemmas date_eval =
  grid_date_def grid_size_def weekday_def toordinal_def ymd2ord_def days_before_year_def
  days_before_month_def lib_days_in_month_def is_leap_def DAYS_BEFORE_MONTH_def
  DAYS_IN_MONTH_def prev_month_def next_month_def Let_def

lemma valid_2008: "valid_year_month 2008 1" "valid_year_month 2008 2"
  by (simp_all add: valid_year_month_def)

lemma grid_2008_2:
  "grid_size 2008 2 = 35"
  "grid_date 2008 2 0 = \<lparr>year = 2008, month = 1, day = 28\<rparr>"
  "grid_date 2008 2 4 = \<lparr>year = 2008, month = 2, day = 1\<rparr>"
  by (simp_all add: date_eval)

lemma grid_2008_1:
  "grid_size 2008 1 = 35"
  "grid_date 2008 1 30 = \<lparr>year = 2008, month = 1, day = 30\<rparr>"
  by (simp_all add: date_eval)

lemma event_entry_concert:
  "event_entry concert =
     Inr (\<lparr>year = 2008, month = 1, day = 30\<rparr>,
          \<lparr>title = PyStr ''Concert at Huckelberries'', url = PyStr ''/foo/2'',
           css_class = PyStr ''concert'',
           timestamp = PyDatetime \<lparr>year = 2008, month = 1, day = 30\<rparr> 14 0 0\<rparr>)"
  by (simp add: event_entry_def concert_def getitem_def datetime_date_def fits_c_int_def MINYEAR_def
      MAXYEAR_def lib_days_in_month_def DAYS_IN_MONTH_def)

lemma event_entry_picnic:
  "event_entry picnic =
     Inr (\<lparr>year = 2008, month = 6, day = 15\<rparr>,
          \<lparr>title = PyStr ''Picnic'', url = PyNone, css_class = PyStr ''outing'',
           timestamp = PyDate \<lparr>year = 2008, month = 6, day = 15\<rparr>\<rparr>)"
  by (simp add: event_entry_def picnic_def getitem_def datetime_date_def fits_c_int_def MINYEAR_def
      MAXYEAR_def lib_days_in_month_def DAYS_IN_MONTH_def)

lemma picnic_not_in_grid:
  "\<lparr>year = 2008, month = 6, day = 15\<rparr> \<notin> set (grid_days 2008 2)"
  using grid_days_months [of "\<lparr>year = 2008, month = 6, day = 15\<rparr>" 2008 2]
  by (auto simp: prev_month_def next_month_def)

lemma gencal_valid_cells:
  assumes "valid_year_month (year d) (month d)"
    and "(year d, month d) \<noteq> (1, 1)" and "(year d, month d) \<noteq> (9999, 12)"
    and "get_events_by_day items = Inr ebd"
  shows "\<exists>ctx. gencal d items = Inr ctx \<and>
    month_cal ctx = grid_weeks ebd (year d) (month d) \<and>
    cells ctx = map (make_cal_day ebd (month d)) (grid_days (year d) (month d))"
  using gencal_valid [OF assms] concat_grid_weeks [OF assms(1), of ebd]
  by (simp add: cells_def)

section \<open>Order of the grid\<close>

lemma prev_month_less:
  assumes "1 \<le> m" "m \<le> 12"
  shows "fst (prev_month y m) < y \<or> (fst (prev_month y m) = y \<and> snd (prev_month y m) < m)"
    and "y < fst (next_month y m) \<or> (fst (next_month y m) = y \<and> m < snd (next_month y m))"
  using assms by (auto simp: prev_month_def next_month_def)

lemma grid_date_less:
  assumes "valid_year_month y m" "i < j"
  shows "date_less (grid_date y m i) (grid_date y m j)"
proof -
  from assms(1) have v: "1 \<le> m" "m \<le> 12" by (simp_all add: valid_year_month_def)
  note p = prev_month_less [OF v, of y]
  note d = lib_days_in_month_bounds [OF v, of y]
  note h = weekday_range(1) [of "\<lparr>year = y, month = m, day = 1\<rparr>"]
  from grid_date_cases [of i y m] grid_date_cases [of j y m] assms(2) p d h
  show ?thesis unfolding date_less_def by (auto simp: prod_eq_iff)
qed

lemma date_less_irrefl: "\<not> date_less a a"
  by (simp add: date_less_def)

lemma sorted_grid_days:
  assumes "valid_year_month y m"
  shows "sorted_wrt date_less (grid_days y m)"
  unfolding sorted_wrt_iff_nth_less
  by (auto simp: length_grid_days grid_days_nth intro: grid_date_less [OF assms])

lemma grid_date_inj:
  assumes "valid_year_month y m" "grid_date y m i = grid_date y m j"
  shows "i = j"
proof (rule ccontr)
  assume "i \<noteq> j"
  then consider "i < j" | "j < i" by linarith
  then show False
    using grid_date_less [OF assms(1), of i j] grid_date_less [OF assms(1), of j i] assms(2)
      date_less_irrefl by cases auto
qed

lemma grid_days_month_day:
  assumes "valid_year_month y m" "1 \<le> k" "k \<le> lib_days_in_month y m"
  shows "\<exists>!n. n < length (grid_days y m) \<and> grid_days y m ! n = \<lparr>year = y, month = m, day = k\<rparr>"
proof -
  define h where "h = weekday \<lparr>year = y, month = m, day = 1\<rparr>"
  have h: "0 \<le> h" unfolding h_def by (rule weekday_range)
  have t: "0 \<le> 6 - weekday \<lparr>year = y, month = m, day = lib_days_in_month y m\<rparr>"
    using weekday_range(2) [of "\<lparr>year = y, month = m, day = lib_days_in_month y m\<rparr>"] by simp
  define n where "n = nat (h + k - 1)"
  have i: "0 \<le> h + k - 1" "h + k - 1 < grid_size y m"
    using h t assms(2,3) by (simp_all add: grid_size_def h_def)
  have g: "grid_date y m (h + k - 1) = \<lparr>year = y, month = m, day = k\<rparr>"
    using assms(2,3) h by (simp add: grid_date_def Let_def h_def)
  have n: "n < length (grid_days y m)" "grid_days y m ! n = \<lparr>year = y, month = m, day = k\<rparr>"
    using i g by (simp_all add: n_def length_grid_days grid_days_nth)
  show ?thesis
  proof (rule ex1I [of _ n])
    show "n < length (grid_days y m) \<and> grid_days y m ! n = \<lparr>year = y, month = m, day = k\<rparr>"
      using n by simp
  next
    fix n' assume a: "n' < length (grid_days y m) \<and>
      grid_days y m ! n' = \<lparr>year = y, month = m, day = k\<rparr>"
    then have "n' < nat (grid_size y m)" by (simp add: length_grid_days)
    from grid_days_nth [OF this] have "grid_days y m ! n' = grid_date y m (int n')" .
    moreover from n(1) have "n < nat (grid_size y m)" by (simp add: length_grid_days)
    from grid_days_nth [OF this] have "grid_days y m ! n = grid_date y m (int n)" .
    ultimately have "grid_date y m (int n') = grid_date y m (int n)"
      using a n(2) by simp
    from grid_date_inj [OF assms(1) this] show "n' = n" by simp
  qed
qed

lemma grid_days_range:
  assumes "valid_year_month y m" "dt \<in> set (grid_days y m)"
  shows "((year dt, month dt) = (y, m) \<and> 1 \<le> day dt \<and> day dt \<le> lib_days_in_month y m) \<or>
    ((year dt, month dt) = prev_month y m \<and>
       lib_days_in_month (fst (prev_month y m)) (snd (prev_month y m)) - 6 < day dt \<and>
       day dt \<le> lib_days_in_month (fst (prev_month y m)) (snd (prev_month y m))) \<or>
    ((year dt, month dt) = next_month y m \<and> 1 \<le> day dt \<and> day dt \<le> 6)"
proof -
  from assms(2) obtain i where i: "0 \<le> i" "i < grid_size y m" "dt = grid_date y m i"
    unfolding grid_days_set by blast
  note w1 = weekday_range [of "\<lparr>year = y, month = m, day = 1\<rparr>"]
  note w2 = weekday_range [of "\<lparr>year = y, month = m, day = lib_days_in_month y m\<rparr>"]
  from grid_date_cases [of i y m] i w1 w2 show ?thesis
    by (auto simp: grid_size_def)
qed

lemma grid_days_first_last:
  assumes "valid_year_month y m"
  shows "grid_days y m \<noteq> []"
    and "hd (grid_days y m) = grid_date y m 0"
    and "last (grid_days y m) = grid_date y m (grid_size y m - 1)"
    and "date_le (grid_date y m 0) \<lparr>year = y, month = m, day = 1\<rparr>"
    and "date_le \<lparr>year = y, month = m, day = lib_days_in_month y m\<rparr>
           (grid_date y m (grid_size y m - 1))"
proof -
  define h where "h = weekday \<lparr>year = y, month = m, day = 1\<rparr>"
  define dim where "dim = lib_days_in_month y m"
  have h: "0 \<le> h" unfolding h_def by (rule weekday_range)
  have t: "0 \<le> 6 - weekday \<lparr>year = y, month = m, day = lib_days_in_month y m\<rparr>"
    using weekday_range(2) [of "\<lparr>year = y, month = m, day = lib_days_in_month y m\<rparr>"] by simp
  from grid_size_bounds(1) [OF assms] h have pos: "0 < grid_size y m" by (simp add: h_def)
  then have len: "0 < length (grid_days y m)" by (simp add: length_grid_days)
  then show ne: "grid_days y m \<noteq> []" by simp
  show "hd (grid_days y m) = grid_date y m 0"
    using hd_conv_nth [OF ne] grid_days_nth [of 0 y m] pos by simp
  have "last (grid_days y m) = grid_days y m ! (nat (grid_size y m) - 1)"
    using ne by (simp add: last_conv_nth length_grid_days)
  also have "\<dots> = grid_date y m (int (nat (grid_size y m) - 1))"
    using pos by (simp add: grid_days_nth)
  also have "int (nat (grid_size y m) - 1) = grid_size y m - 1" using pos by simp
  finally show "last (grid_days y m) = grid_date y m (grid_size y m - 1)" .
  from assms have v: "1 \<le> m" "m \<le> 12" by (simp_all add: valid_year_month_def)
  note d = lib_days_in_month_bounds [OF v, of y]
  have f: "grid_date y m h = \<lparr>year = y, month = m, day = 1\<rparr>"
    using d by (simp add: grid_date_def Let_def h_def)
  show "date_le (grid_date y m 0) \<lparr>year = y, month = m, day = 1\<rparr>"
  proof (cases "h = 0")
    case True
    with f show ?thesis by (simp add: date_le_def)
  next
    case False
    with h have "0 < h" by simp
    from grid_date_less [OF assms this] f show ?thesis by (simp add: date_le_def)
  qed
  have l: "grid_date y m (h + dim - 1) = \<lparr>year = y, month = m, day = dim\<rparr>"
    using d h by (simp add: grid_date_def Let_def h_def dim_def)
  have gs: "grid_size y m - 1 = h + dim - 1 + (6 - weekday \<lparr>year = y, month = m, day = dim\<rparr>)"
    by (simp add: grid_size_def h_def dim_def)
  show "date_le \<lparr>year = y, month = m, day = lib_days_in_month y m\<rparr>
           (grid_date y m (grid_size y m - 1))"
  proof (cases "6 - weekday \<lparr>year = y, month = m, day = dim\<rparr> = 0")
    case True
    with l gs show ?thesis by (simp add: date_le_def dim_def)
  next
    case False
    with t have "h + dim - 1 < grid_size y m - 1" unfolding gs by (simp add: dim_def)
    from grid_date_less [OF assms this] l show ?thesis by (simp add: date_le_def dim_def)
  qed
qed

section \<open>The cells and their entries\<close>

lemma cell_day_make_cal_day:
  "map cell_day (map (make_cal_day ebd m) ds) = ds"
  by (induction ds) (simp_all add: make_cal_day_def)

lemma list_all2_partner:
  assumes "list_all2 P xs ys" "y \<in> set ys"
  shows "\<exists>x \<in> set xs. P x y"
  using assms by (induction rule: list_all2_induct) auto

lemma cell_of_gencal:
  assumes "gencal d items = Inr ctx" "c \<in> set (cells ctx)"
  shows "\<exists>ebd. get_events_by_day items = Inr ebd \<and> cell_day c \<in> set (grid_days (year d) (month d)) \<and>
     event c = ebd (cell_day c) \<and> in_month c = (month (cell_day c) = month d)"
  using cells_gencal [OF assms(1)] assms(2) by (auto simp: make_cal_day_def)

lemma cell_events:
  assumes "gencal d items = Inr ctx" "c \<in> set (cells ctx)"
  shows "list_all2 is_entry_of (event c) (filter (\<lambda>ev. item_date ev = Some (cell_day c)) items)"
proof -
  from cell_of_gencal [OF assms] obtain ebd where
    e: "get_events_by_day items = Inr ebd" "event c = ebd (cell_day c)" by blast
  from group_events_Inr [OF e(1) [unfolded get_events_by_day_def], of "cell_day c"] e(2)
  show ?thesis by auto
qed

lemma get_events_by_day_bad_day:
  assumes "ev \<in> set items" "day_error ev \<noteq> None"
  shows "\<exists>e. get_events_by_day items = Inl e \<and>
    (e = KeyError \<or> e = AttributeError \<or> e = ValueError \<or> e = OverflowError)"
proof (cases "get_events_by_day items")
  case (Inl e)
  with group_events_error [of "\<lambda>d. []" items e] show ?thesis
    by (simp add: get_events_by_day_def)
next
  case (Inr ebd)
  from group_events_Inr_all [OF Inr [unfolded get_events_by_day_def] assms(1)]
  obtain r where "event_entry ev = Inr r" ..
  from event_entry_Inr_day_ok [OF this] assms(2) show ?thesis by simp
qed

lemma gencal_items_dated:
  assumes "gencal d items = Inr ctx" "ev \<in> set items"
  shows "day_error ev = None" "\<exists>dd. item_date ev = Some dd"
proof -
  from cells_gencal [OF assms(1)] obtain ebd where "get_events_by_day items = Inr ebd" by blast
  from group_events_Inr_all [OF this [unfolded get_events_by_day_def] assms(2)]
  obtain dd g where e: "event_entry ev = Inr (dd, g)" by auto
  from event_entry_Inr_day_ok [OF e] show "day_error ev = None" .
  from event_entry_Inr(1) [OF e] show "\<exists>dd. item_date ev = Some dd" by blast
qed

section \<open>First and last day, weeks\<close>

lemma date_sub_first:
  assumes "valid_year_month y m"
  shows "date_sub \<lparr>year = y, month = m, day = 1\<rparr> (weekday \<lparr>year = y, month = m, day = 1\<rparr>) =
    Inr (grid_date y m 0)"
proof -
  from grid_size_bounds(1) [OF assms] weekday_range(1) [of "\<lparr>year = y, month = m, day = 1\<rparr>"]
  have "0 < grid_size y m" by linarith
  from grid_date_ordinal(2) [OF assms _ this] grid_start_pos [OF assms] show ?thesis
    by (simp add: date_sub_def date_add_def Let_def grid_start_def toordinal_def)
qed

lemma grid_top:
  assumes "valid_year_month y m" "(y, m) \<noteq> (9999, 12)"
  shows "grid_start y m + grid_size y m - 1 \<le> MAXORDINAL"
  using ymd2ord_upper(2) [OF assms(1) order_refl assms(2)]
    weekday_range(1) [of "\<lparr>year = y, month = m, day = lib_days_in_month y m\<rparr>"]
  unfolding grid_last_ordinal by linarith

lemma date_add_last:
  assumes "valid_year_month y m" "(y, m) \<noteq> (9999, 12)"
  shows "date_add \<lparr>year = y, month = m, day = lib_days_in_month y m\<rparr>
      (6 - weekday \<lparr>year = y, month = m, day = lib_days_in_month y m\<rparr>) =
    Inr (grid_date y m (grid_size y m - 1))"
proof -
  from grid_size_bounds(1) [OF assms(1)] weekday_range(1) [of "\<lparr>year = y, month = m, day = 1\<rparr>"]
  have pos: "0 < grid_size y m" by linarith
  have o: "toordinal \<lparr>year = y, month = m, day = lib_days_in_month y m\<rparr> +
      (6 - weekday \<lparr>year = y, month = m, day = lib_days_in_month y m\<rparr>) =
      grid_start y m + (grid_size y m - 1)"
    using grid_last_ordinal [of y m] by (simp add: toordinal_def)
  have "0 < grid_start y m + (grid_size y m - 1)"
    using grid_start_pos(1) [OF assms(1)] pos by linarith
  moreover have "grid_start y m + (grid_size y m - 1) \<le> MAXORDINAL"
    using grid_top [OF assms] by simp
  moreover have "fromordinal (grid_start y m + (grid_size y m - 1)) =
      grid_date y m (grid_size y m - 1)"
    using pos by (intro grid_date_ordinal(2) [OF assms(1)]) simp_all
  ultimately show ?thesis unfolding date_add_def Let_def o by simp
qed

lemma weekday_first_last:
  assumes "valid_year_month y m"
  shows "weekday (grid_date y m 0) = 0" "weekday (grid_date y m (grid_size y m - 1)) = 6"
proof -
  from grid_size_bounds(1) [OF assms] weekday_range(1) [of "\<lparr>year = y, month = m, day = 1\<rparr>"]
  have pos: "0 < grid_size y m" by linarith
  from weekday_grid_date [OF assms _ pos] show "weekday (grid_date y m 0) = 0" by simp
  have "weekday (grid_date y m (grid_size y m - 1)) = (grid_size y m - 1) mod 7"
    using pos by (intro weekday_grid_date [OF assms]) simp_all
  also have "\<dots> = 6" using grid_size_mod7 [of y m] by presburger
  finally show "weekday (grid_date y m (grid_size y m - 1)) = 6" .
qed

lemma grid_weeks_weekdays:
  assumes "valid_year_month y m" "w \<in> set (grid_weeks ebd y m)"
  shows "map (\<lambda>c. weekday (cell_day c)) w = map int [0..<7]"
proof -
  let ?k = "nat (grid_size y m) div 7"
  from assms(2) obtain j where j: "j < ?k"
    and w: "w = map (make_cal_day ebd m) (take 7 (drop (7 * j) (grid_days y m)))"
    by (auto simp: grid_weeks_def)
  have len: "length (grid_days y m) = 7 * ?k"
    using grid_size_weeks [of y m] by (simp add: length_grid_days)
  have l7: "length (take 7 (drop (7 * j) (grid_days y m))) = 7" using j len by simp
  have "map (\<lambda>c. weekday (cell_day c)) w = map weekday (take 7 (drop (7 * j) (grid_days y m)))"
    unfolding w by (simp add: make_cal_day_def comp_def)
  also have "\<dots> = map int [0..<7]"
  proof (rule nth_equalityI)
    show "length (map weekday (take 7 (drop (7 * j) (grid_days y m)))) = length (map int [0..<7])"
      using l7 by simp
  next
    fix i assume "i < length (map weekday (take 7 (drop (7 * j) (grid_days y m))))"
    with l7 have i: "i < 7" by simp
    with j len have b: "7 * j + i < nat (grid_size y m)" using grid_size_weeks [of y m] by simp
    then have "int (7 * j + i) < grid_size y m" by simp
    from weekday_grid_date [OF assms(1) _ this] grid_days_nth [OF b]
    have "weekday (grid_days y m ! (7 * j + i)) = int i" using i by (simp add: zmod_int)
    with i l7 len j show "map weekday (take 7 (drop (7 * j) (grid_days y m))) ! i =
        map int [0..<7] ! i" by simp
  qed
  finally show ?thesis .
qed

lemma week_numbers: "map int [0..<7] = [0, 1, 2, 3, 4, 5, 6]"
  by (simp add: upt_rec)

lemma item_date_examples:
  "item_date concert = Some \<lparr>year = 2008, month = 1, day = 30\<rparr>"
  "item_date picnic = Some \<lparr>year = 2008, month = 6, day = 15\<rparr>"
  by (simp_all add: item_date_def picnic_def concert_def)

lemma event_entry_malformed:
  "event_entry Map.empty = Inl KeyError"
  "event_entry [''day'' \<mapsto> PyStr ''2008-01-30''] = Inl AttributeError"
  by (simp_all add: event_entry_def getitem_def)

lemma list_all2_partner_left:
  assumes "list_all2 P xs ys" "x \<in> set xs"
  shows "\<exists>y \<in> set ys. P x y"
  using assms by (induction rule: list_all2_induct) auto

lemma item_date_same_day:
  assumes "is_entry_of g ev" "is_entry_of g ev'"
  shows "item_date ev = item_date ev'"
  using assms by (simp add: is_entry_of_def item_date_def)

lemma entry_in_cell_date:
  assumes "gencal d items = Inr ctx" "c \<in> set (cells ctx)" "g \<in> set (event c)"
    and "is_entry_of g ev"
  shows "item_date ev = Some (cell_day c)"
proof -
  from list_all2_partner_left [OF cell_events [OF assms(1,2)] assms(3)]
  obtain ev' where "item_date ev' = Some (cell_day c)" "is_entry_of g ev'" by auto
  with item_date_same_day [OF assms(4) this(2)] show ?thesis by simp
qed

section \<open>The properties\<close>

text \<open>
  C1 (as amended).  For every valid (year, month) other than January of year 1 and December
  of year 9999, and for every list of items, \<open>gencal\<close> either fails in the grouping of the
  items (an item is malformed) or returns a grid that covers the month: the date of the
  first cell is at most the 1st, the date of the last cell is at least the last day of the
  month, the dates of the cells increase strictly, every date of the month is the date of
  exactly one cell, and every cell's date lies in the month, in the last six days of the
  month before or in the first six days of the month after.
\<close>

theorem gencal_grid_covers_month:
  assumes "valid_year_month (year d) (month d)"
    and "(year d, month d) \<noteq> (1, 1)" and "(year d, month d) \<noteq> (9999, 12)"
  shows "(\<exists>e. get_events_by_day items = Inl e \<and> gencal d items = Inl e) \<or>
    (\<exists>ctx. gencal d items = Inr ctx \<and> cells ctx \<noteq> [] \<and>
       date_le (cell_day (hd (cells ctx))) \<lparr>year = year d, month = month d, day = 1\<rparr> \<and>
       date_le \<lparr>year = year d, month = month d, day = lib_days_in_month (year d) (month d)\<rparr>
         (cell_day (last (cells ctx))) \<and>
       sorted_wrt date_less (map cell_day (cells ctx)) \<and>
       (\<forall>k. 1 \<le> k \<and> k \<le> lib_days_in_month (year d) (month d) \<longrightarrow>
          (\<exists>!n. n < length (cells ctx) \<and>
             cell_day (cells ctx ! n) = \<lparr>year = year d, month = month d, day = k\<rparr>)) \<and>
       (\<forall>c \<in> set (cells ctx). in_padded_month (year d) (month d) (cell_day c)))"
proof (cases "get_events_by_day items")
  case (Inl e)
  then show ?thesis by (simp add: gencal_events_error)
next
  case (Inr ebd)
  let ?y = "year d" and ?m = "month d"
  from gencal_valid_cells [OF assms Inr] obtain ctx where
    ctx: "gencal d items = Inr ctx"
    and c: "cells ctx = map (make_cal_day ebd ?m) (grid_days ?y ?m)" by blast
  have days: "map cell_day (cells ctx) = grid_days ?y ?m"
    unfolding c by (rule cell_day_make_cal_day)
  note fl = grid_days_first_last [OF assms(1)]
  have ne: "cells ctx \<noteq> []" using fl(1) days by auto
  have hd: "cell_day (hd (cells ctx)) = grid_date ?y ?m 0"
    using hd_map [OF ne, of cell_day] days fl(2) by simp
  have last: "cell_day (last (cells ctx)) = grid_date ?y ?m (grid_size ?y ?m - 1)"
    using last_map [OF ne, of cell_day] days fl(3) by simp
  have nth: "cell_day (cells ctx ! n) = grid_days ?y ?m ! n" if "n < length (cells ctx)" for n
    using nth_map [OF that, of cell_day] days by simp
  have len: "length (cells ctx) = length (grid_days ?y ?m)"
    using arg_cong [OF days, of length] by simp
  have once: "\<exists>!n. n < length (cells ctx) \<and>
      cell_day (cells ctx ! n) = \<lparr>year = ?y, month = ?m, day = k\<rparr>"
    if "1 \<le> k \<and> k \<le> lib_days_in_month ?y ?m" for k
  proof -
    from that grid_days_month_day [OF assms(1), of k]
    obtain n where n: "n < length (grid_days ?y ?m)"
        "grid_days ?y ?m ! n = \<lparr>year = ?y, month = ?m, day = k\<rparr>"
      and u: "\<And>n'. n' < length (grid_days ?y ?m) \<and>
        grid_days ?y ?m ! n' = \<lparr>year = ?y, month = ?m, day = k\<rparr> \<Longrightarrow> n' = n"
      by (auto elim!: ex1E)
    show ?thesis
    proof (rule ex1I [of _ n])
      show "n < length (cells ctx) \<and>
        cell_day (cells ctx ! n) = \<lparr>year = ?y, month = ?m, day = k\<rparr>"
        using n nth [of n] len by simp
    next
      fix n' assume "n' < length (cells ctx) \<and>
        cell_day (cells ctx ! n') = \<lparr>year = ?y, month = ?m, day = k\<rparr>"
      then show "n' = n" using u [of n'] nth [of n'] len by simp
    qed
  qed
  have padded: "in_padded_month ?y ?m (cell_day c)" if "c \<in> set (cells ctx)" for c
  proof -
    from that have "cell_day c \<in> set (map cell_day (cells ctx))" by simp
    then have "cell_day c \<in> set (grid_days ?y ?m)" unfolding days .
    from grid_days_range [OF assms(1) this] show ?thesis unfolding in_padded_month_def .
  qed
  have "gencal d items = Inr ctx \<and> cells ctx \<noteq> [] \<and>
       date_le (cell_day (hd (cells ctx))) \<lparr>year = ?y, month = ?m, day = 1\<rparr> \<and>
       date_le \<lparr>year = ?y, month = ?m, day = lib_days_in_month ?y ?m\<rparr>
         (cell_day (last (cells ctx))) \<and>
       sorted_wrt date_less (map cell_day (cells ctx)) \<and>
       (\<forall>k. 1 \<le> k \<and> k \<le> lib_days_in_month ?y ?m \<longrightarrow>
          (\<exists>!n. n < length (cells ctx) \<and>
             cell_day (cells ctx ! n) = \<lparr>year = ?y, month = ?m, day = k\<rparr>)) \<and>
       (\<forall>c \<in> set (cells ctx). in_padded_month ?y ?m (cell_day c))"
    using ctx ne fl(4,5) sorted_grid_days [OF assms(1)] once padded
    unfolding hd last days by blast
  then show ?thesis by blast
qed

theorem gencal_grid_covers_month_witness:
  "valid_year_month (year \<lparr>year = 2008, month = 2, day = 1\<rparr>)
     (month \<lparr>year = 2008, month = 2, day = 1\<rparr>) \<and>
   (\<exists>ctx. gencal \<lparr>year = 2008, month = 2, day = 1\<rparr> [concert] = Inr ctx \<and> cells ctx \<noteq> [] \<and>
      sorted_wrt date_less (map cell_day (cells ctx)) \<and>
      (\<forall>c \<in> set (cells ctx). in_padded_month 2008 2 (cell_day c)))"
proof -
  have e: "\<not> (\<exists>e. get_events_by_day [concert] = Inl e)"
    by (simp add: get_events_by_day_def event_entry_concert)
  from gencal_grid_covers_month [of "\<lparr>year = 2008, month = 2, day = 1\<rparr>" "[concert]"] e
    valid_2008(2)
  show ?thesis by auto
qed

text \<open>
  C1 as stated fails at the two ends of the range of \<^verbatim>\<open>datetime.date\<close>, where \<open>gencal\<close>
  returns no grid: for December 9999 the days after 9999-12-31 cannot be enumerated
  (\<^verbatim>\<open>OverflowError\<close>), for January of year 1 the previous month cannot be built
  (\<^verbatim>\<open>ValueError\<close>).
\<close>

theorem gencal_date_range_counterexample:
  "valid_year_month 9999 12 \<and>
   gencal \<lparr>year = 9999, month = 12, day = 1\<rparr> [] = Inl OverflowError \<and>
   valid_year_month 1 1 \<and>
   gencal \<lparr>year = 1, month = 1, day = 1\<rparr> [] = Inl ValueError"
proof -
  have v: "valid_year_month 1 1" by (simp add: valid_year_month_def)
  have "get_iterable_days 1 1 = Inr (grid_days 1 1)"
    by (rule get_iterable_days_valid [OF v]) simp
  then show ?thesis
    using v valid_9999_12
    by (simp add: gencal_def get_events_by_day_def get_iterable_days_9999_12
        get_prev_next_months_1_1 split: prod.splits)
qed

text \<open>
  C2.  For every valid (year, month) the local variables of \<open>get_iterable_days\<close> are
  computed without an exception, and the total number of days,
  \<open>head_days + days_in_month + tail_days\<close>, is a multiple of 7 between 28 (even 28 plus the
  leading days) and 42.  So the assertion of line 143 never fails, and whenever the days are
  enumerated there are that many of them.
\<close>

theorem total_days_in_calendar_whole_weeks:
  assumes "valid_year_month y m"
  shows "\<exists>l. get_iterable_days_locals y m = Inr l \<and>
    total_days_in_calendar l = head_days l + days_in_month l + tail_days l \<and>
    total_days_in_calendar l mod 7 = 0 \<and>
    28 \<le> total_days_in_calendar l \<and> 28 + head_days l \<le> total_days_in_calendar l \<and>
    total_days_in_calendar l \<le> 42 \<and>
    get_iterable_days y m \<noteq> Inl AssertionError \<and>
    (\<forall>ds. get_iterable_days y m = Inr ds \<longrightarrow> int (length ds) = total_days_in_calendar l)"
proof -
  note b = grid_size_bounds [OF assms]
  note h = weekday_range(1) [of "\<lparr>year = y, month = m, day = 1\<rparr>"]
  have len: "int (length ds) = grid_size y m" if "get_iterable_days y m = Inr ds" for ds
    using get_iterable_days_Inr(1) [OF assms that] b h by (simp add: length_grid_days)
  show ?thesis
    using b h grid_size_mod7 [of y m] get_iterable_days_no_assertion [of y m] len
    by (simp add: get_iterable_days_locals_valid [OF assms] grid_size_def)
qed

theorem total_days_in_calendar_whole_weeks_witness:
  "valid_year_month 2008 2 \<and>
   (\<exists>l. get_iterable_days_locals 2008 2 = Inr l \<and> total_days_in_calendar l mod 7 = 0 \<and>
      28 \<le> total_days_in_calendar l \<and> total_days_in_calendar l \<le> 42 \<and>
      (\<exists>ds. get_iterable_days 2008 2 = Inr ds \<and> int (length ds) = total_days_in_calendar l))"
proof -
  have v: "valid_year_month 2008 2" by (simp add: valid_year_month_def)
  have "get_iterable_days 2008 2 = Inr (grid_days 2008 2)"
    by (rule get_iterable_days_valid [OF v]) simp
  with total_days_in_calendar_whole_weeks [OF v] v show ?thesis by auto
qed

text \<open>
  C3 (as amended).  For every valid (year, month) other than December 9999 the days are
  enumerated; the first one is the 1st of the month minus its weekday and is a Monday, the
  last one is the last day of the month plus 6 minus its weekday and is a Sunday.  Every week
  of a grid that \<open>gencal\<close> returns for the month has exactly 7 cells, Monday to Sunday.
\<close>

theorem grid_starts_monday_ends_sunday:
  assumes "valid_year_month y m" and "(y, m) \<noteq> (9999, 12)"
  shows "\<exists>ds l. get_iterable_days y m = Inr ds \<and> get_iterable_days_locals y m = Inr l \<and>
     ds \<noteq> [] \<and>
     first_day_of_month l = \<lparr>year = y, month = m, day = 1\<rparr> \<and>
     date_sub (first_day_of_month l) (weekday (first_day_of_month l)) = Inr (hd ds) \<and>
     weekday (hd ds) = 0 \<and>
     last_day_of_month l = \<lparr>year = y, month = m, day = lib_days_in_month y m\<rparr> \<and>
     date_add (last_day_of_month l) (6 - weekday (last_day_of_month l)) = Inr (last ds) \<and>
     weekday (last ds) = 6 \<and>
     (\<forall>dd items ctx. gencal \<lparr>year = y, month = m, day = dd\<rparr> items = Inr ctx \<longrightarrow>
        (\<forall>w \<in> set (month_cal ctx). length w = 7 \<and>
           map (\<lambda>c. weekday (cell_day c)) w = [0, 1, 2, 3, 4, 5, 6]))"
proof -
  note fl = grid_days_first_last [OF assms(1)]
  have weeks: "length w = 7 \<and> map (\<lambda>c. weekday (cell_day c)) w = [0, 1, 2, 3, 4, 5, 6]"
    if g: "gencal \<lparr>year = y, month = m, day = dd\<rparr> items = Inr ctx" and w: "w \<in> set (month_cal ctx)"
    for dd items ctx w
  proof -
    from gencal_Inr_D(4) [OF g] w obtain ebd where "w \<in> set (grid_weeks ebd y m)" by auto
    from grid_weeks_weekdays [OF assms(1) this]
    have m: "map (\<lambda>c. weekday (cell_day c)) w = [0, 1, 2, 3, 4, 5, 6]"
      by (simp add: week_numbers)
    have "length (map (\<lambda>c. weekday (cell_day c)) w) = length [0, 1, 2, 3, 4, 5, 6 :: int]"
      by (simp only: m)
    then have "length w = 7" by simp
    with m show ?thesis by blast
  qed
  show ?thesis
    using get_iterable_days_valid [OF assms] get_iterable_days_locals_valid [OF assms(1)]
      fl(1) date_sub_first [OF assms(1)] date_add_last [OF assms] weekday_first_last [OF assms(1)]
      weeks
    unfolding fl(2) [symmetric] fl(3) [symmetric]
    by (intro exI [of _ "grid_days y m"]) auto
qed

theorem grid_starts_monday_ends_sunday_witness:
  "valid_year_month 2008 2 \<and> (2008, 2) \<noteq> (9999 :: int, 12 :: int) \<and>
   (\<exists>ds. get_iterable_days 2008 2 = Inr ds \<and> ds \<noteq> [] \<and> weekday (hd ds) = 0 \<and>
      weekday (last ds) = 6) \<and>
   (\<exists>ctx. gencal \<lparr>year = 2008, month = 2, day = 1\<rparr> [concert] = Inr ctx \<and>
      (\<forall>w \<in> set (month_cal ctx). length w = 7))"
proof -
  have e: "get_events_by_day [concert] =
      Inr ((\<lambda>d. [])(fst (projr (event_entry concert)) := [snd (projr (event_entry concert))]))"
    by (simp add: get_events_by_day_def event_entry_concert)
  have "\<exists>ctx. gencal \<lparr>year = 2008, month = 2, day = 1\<rparr> [concert] = Inr ctx"
    using gencal_valid_cells [of "\<lparr>year = 2008, month = 2, day = 1\<rparr>", OF _ _ _ e] valid_2008(2)
    by auto
  with grid_starts_monday_ends_sunday [OF valid_2008(2)] valid_2008(2) show ?thesis
    by (simp del: ex_simps) blast
qed

text \<open>
  C3 as stated fails for December 9999: the month ends on a Friday, the two days after
  9999-12-31 are no dates, and the enumeration raises \<^verbatim>\<open>OverflowError\<close> before a Sunday is
  reached.
\<close>

theorem get_iterable_days_overflow_counterexample:
  "valid_year_month 9999 12 \<and> get_iterable_days 9999 12 = Inl OverflowError"
  using valid_9999_12 get_iterable_days_9999_12 by simp

text \<open>
  C4 (as amended).  For every year in 1..9999 and month in 1..12 other than January of
  year 1 and December of year 9999, \<open>get_prev_next_months\<close> returns the 1st of the previous
  month and the 1st of the next month: for January the previous one is December of the year
  before, for December the next one is January of the year after, and for every other month
  the year is unchanged.
\<close>

theorem get_prev_next_months_anchors:
  assumes "valid_year_month y m" and "(y, m) \<noteq> (1, 1)" and "(y, m) \<noteq> (9999, 12)"
  shows "get_prev_next_months y m =
    Inr (\<lparr>year = (if m = 1 then y - 1 else y), month = (if m = 1 then 12 else m - 1), day = 1\<rparr>,
         \<lparr>year = (if m = 12 then y + 1 else y), month = (if m = 12 then 1 else m + 1), day = 1\<rparr>)"
  using assms by (rule get_prev_next_months_valid)

theorem get_prev_next_months_anchors_witness:
  "valid_year_month 2008 12 \<and> (2008, 12) \<noteq> (1 :: int, 1 :: int) \<and>
   (2008, 12) \<noteq> (9999 :: int, 12 :: int) \<and>
   get_prev_next_months 2008 12 =
     Inr (\<lparr>year = 2008, month = 11, day = 1\<rparr>, \<lparr>year = 2009, month = 1, day = 1\<rparr>)"
  using get_prev_next_months_anchors [of 2008 12]
  by (simp add: valid_year_month_def)

text \<open>
  C4 as stated fails at the two ends of the range of \<^verbatim>\<open>datetime.date\<close>: the previous month
  of January of year 1 would be in year 0, the next month of December 9999 in year 10000, and
  \<^verbatim>\<open>datetime.date\<close> raises \<^verbatim>\<open>ValueError\<close>.
\<close>

theorem get_prev_next_months_range_counterexample:
  "valid_year_month 1 1 \<and> get_prev_next_months 1 1 = Inl ValueError \<and>
   valid_year_month 9999 12 \<and> get_prev_next_months 9999 12 = Inl ValueError"
  by (simp add: valid_year_month_def get_prev_next_months_1_1 get_prev_next_months_9999_12)

text \<open>
  C5.  For every cell of a grid that \<open>gencal\<close> returns, \<open>in_month\<close> holds exactly when the
  month number of the cell's date is the requested month; that is exactly when the date lies
  in the requested month of the requested year, so a cell taken from the month before or from
  the month after has \<open>in_month = False\<close>.
\<close>

theorem in_month_iff_requested_month:
  assumes "gencal d items = Inr ctx" and "c \<in> set (cells ctx)"
  shows "(in_month c \<longleftrightarrow> month (cell_day c) = month d) \<and>
    (in_month c \<longleftrightarrow> (year (cell_day c), month (cell_day c)) = (year d, month d)) \<and>
    ((year (cell_day c), month (cell_day c)) = prev_month (year d) (month d) \<or>
     (year (cell_day c), month (cell_day c)) = next_month (year d) (month d)
       \<longrightarrow> \<not> in_month c)"
proof -
  note v = gencal_Inr_D(1) [OF assms(1)]
  from v have m: "1 \<le> month d \<and> month d \<le> 12" by (simp add: valid_year_month_def)
  from cell_of_gencal [OF assms] have g: "cell_day c \<in> set (grid_days (year d) (month d))"
    and i: "in_month c = (month (cell_day c) = month d)" by auto
  from grid_days_same_month [OF v g] neighbour_months_differ [of "year d" "month d"] m i
  show ?thesis by (auto simp: prod_eq_iff)
qed

theorem in_month_iff_requested_month_witness:
  "\<exists>ctx c. gencal \<lparr>year = 2008, month = 2, day = 1\<rparr> [] = Inr ctx \<and> c \<in> set (cells ctx) \<and>
     cell_day c = \<lparr>year = 2008, month = 1, day = 28\<rparr> \<and> \<not> in_month c"
proof -
  let ?d = "\<lparr>year = 2008, month = 2, day = 1\<rparr>"
  have e: "get_events_by_day [] = Inr (\<lambda>d. [])" by (simp add: get_events_by_day_def)
  from gencal_valid_cells [of ?d, OF _ _ _ e] valid_2008(2) obtain ctx where
    ctx: "gencal ?d [] = Inr ctx"
    and c: "cells ctx = map (make_cal_day (\<lambda>d. []) 2) (grid_days 2008 2)" by auto
  have "grid_date 2008 2 0 \<in> set (grid_days 2008 2)"
    unfolding grid_days_set by (intro exI [of _ 0]) (simp add: grid_2008_2)
  then have in_cells: "make_cal_day (\<lambda>d. []) 2 \<lparr>year = 2008, month = 1, day = 28\<rparr> \<in> set (cells ctx)"
    unfolding c grid_2008_2 by simp
  from in_month_iff_requested_month [OF ctx in_cells] ctx in_cells show ?thesis
    by (intro exI [of _ ctx] exI [of _ "make_cal_day (\<lambda>d. []) 2 \<lparr>year = 2008, month = 1, day = 28\<rparr>"])
      (simp add: make_cal_day_def)
qed

text \<open>
  C6.  The events of a cell are the input items whose \<^verbatim>\<open>'day'\<close> has the cell's year, month
  and day, whatever its time of day, in input order; each entry carries the item's title, url
  and class, and as \<open>timestamp\<close> the \<^verbatim>\<open>'day'\<close> value as it was given.
\<close>

theorem events_grouped_by_calendar_date:
  assumes "gencal d items = Inr ctx" and "c \<in> set (cells ctx)"
  shows "list_all2 is_entry_of (event c)
           (filter (\<lambda>ev. item_date ev = Some (cell_day c)) items)"
  using assms by (rule cell_events)

theorem events_grouped_by_calendar_date_witness:
  "\<exists>ctx c. gencal \<lparr>year = 2008, month = 1, day = 1\<rparr> [picnic, concert] = Inr ctx \<and>
     c \<in> set (cells ctx) \<and> cell_day c = \<lparr>year = 2008, month = 1, day = 30\<rparr> \<and>
     event c = [\<lparr>title = PyStr ''Concert at Huckelberries'', url = PyStr ''/foo/2'',
                 css_class = PyStr ''concert'',
                 timestamp = PyDatetime \<lparr>year = 2008, month = 1, day = 30\<rparr> 14 0 0\<rparr>]"
proof -
  let ?d = "\<lparr>year = 2008, month = 1, day = 1\<rparr>"
  let ?day = "\<lparr>year = 2008, month = 1, day = 30\<rparr>"
  have "\<exists>ebd. get_events_by_day [picnic, concert] = Inr ebd"
    by (simp add: get_events_by_day_def event_entry_concert event_entry_picnic)
  then obtain ebd where e: "get_events_by_day [picnic, concert] = Inr ebd" ..
  have "(2008 :: int, 1 :: int) \<noteq> (1, 1)" by simp
  with gencal_valid_cells [of ?d, OF _ _ _ e] valid_2008(1) obtain ctx where
    ctx: "gencal ?d [picnic, concert] = Inr ctx"
    and c: "cells ctx = map (make_cal_day ebd 1) (grid_days 2008 1)" by auto
  have "grid_date 2008 1 30 \<in> set (grid_days 2008 1)"
    unfolding grid_days_set by (intro exI [of _ 30]) (simp add: grid_2008_1)
  then have in_cells: "make_cal_day ebd 1 ?day \<in> set (cells ctx)"
    unfolding c grid_2008_1 by simp
  from events_grouped_by_calendar_date [OF ctx in_cells]
  have "list_all2 is_entry_of (event (make_cal_day ebd 1 ?day)) [concert]"
    by (simp add: item_date_examples make_cal_day_def)
  then obtain g where g: "event (make_cal_day ebd 1 ?day) = [g]" "is_entry_of g concert"
    by (auto simp: list_all2_Cons2)
  from g(2) have "g = \<lparr>title = PyStr ''Concert at Huckelberries'', url = PyStr ''/foo/2'',
                 css_class = PyStr ''concert'',
                 timestamp = PyDatetime \<lparr>year = 2008, month = 1, day = 30\<rparr> 14 0 0\<rparr>"
    by (cases g) (simp add: is_entry_of_def concert_def)
  with g(1) ctx in_cells show ?thesis
    by (intro exI [of _ ctx] exI [of _ "make_cal_day ebd 1 ?day"]) (simp add: make_cal_day_def)
qed

text \<open>
  C7.  February 2008: 2008 is a leap year, the month has 29 days and starts on a Friday.
  For every list of items that the grouping accepts, the grid has 5 weeks of 7 cells, 35
  cells; the first cell is Monday 2008-01-28 and is not in the month, the fifth cell is
  2008-02-01 and is in the month; every cell dated 2008-02-01 is in the month and every cell
  dated 2008-01-28 is not.
\<close>

theorem gencal_february_2008:
  assumes "get_events_by_day items = Inr ebd"
  shows "\<exists>ctx. gencal \<lparr>year = 2008, month = 2, day = dd\<rparr> items = Inr ctx \<and>
    length (month_cal ctx) = 5 \<and> (\<forall>w \<in> set (month_cal ctx). length w = 7) \<and>
    length (cells ctx) = 35 \<and>
    cell_day (cells ctx ! 0) = \<lparr>year = 2008, month = 1, day = 28\<rparr> \<and>
    \<not> in_month (cells ctx ! 0) \<and>
    cell_day (cells ctx ! 4) = \<lparr>year = 2008, month = 2, day = 1\<rparr> \<and>
    in_month (cells ctx ! 4) \<and>
    (\<forall>c \<in> set (cells ctx).
       (cell_day c = \<lparr>year = 2008, month = 2, day = 1\<rparr> \<longrightarrow> in_month c) \<and>
       (cell_day c = \<lparr>year = 2008, month = 1, day = 28\<rparr> \<longrightarrow> \<not> in_month c)) \<and>
    is_leap 2008 \<and> lib_days_in_month 2008 2 = 29 \<and>
    weekday \<lparr>year = 2008, month = 2, day = 1\<rparr> = 4 \<and>
    weekday \<lparr>year = 2008, month = 1, day = 28\<rparr> = 0"
proof -
  let ?d = "\<lparr>year = 2008, month = 2, day = dd\<rparr>"
  from gencal_valid_cells [of ?d, OF _ _ _ assms] valid_2008(2) obtain ctx where
    ctx: "gencal ?d items = Inr ctx"
    and w: "month_cal ctx = grid_weeks ebd 2008 2"
    and c: "cells ctx = map (make_cal_day ebd 2) (grid_days 2008 2)" by auto
  have l: "length (month_cal ctx) = 5" unfolding w by (simp add: grid_weeks_def grid_2008_2)
  have w7: "\<forall>w \<in> set (month_cal ctx). length w = 7"
  proof
    fix x assume "x \<in> set (month_cal ctx)"
    then have "x \<in> set (grid_weeks ebd 2008 2)" unfolding w .
    from grid_weeks_weekdays [OF valid_2008(2) this]
    have "length (map (\<lambda>c. weekday (cell_day c)) x) = length (map int [0..<7])" by (simp only:)
    then show "length x = 7" by simp
  qed
  have n: "length (cells ctx) = 35" unfolding c by (simp add: length_grid_days grid_2008_2)
  have c0: "cells ctx ! 0 = make_cal_day ebd 2 \<lparr>year = 2008, month = 1, day = 28\<rparr>"
    unfolding c using grid_days_nth [of 0 2008 2] by (simp add: length_grid_days grid_2008_2)
  have c4: "cells ctx ! 4 = make_cal_day ebd 2 \<lparr>year = 2008, month = 2, day = 1\<rparr>"
    unfolding c using grid_days_nth [of 4 2008 2] by (simp add: length_grid_days grid_2008_2)
  have im: "in_month x = (month (cell_day x) = 2)" if "x \<in> set (cells ctx)" for x
    using that unfolding c by (auto simp: make_cal_day_def)
  have cal: "is_leap 2008" "lib_days_in_month 2008 2 = 29"
    "weekday \<lparr>year = 2008, month = 2, day = 1\<rparr> = 4"
    "weekday \<lparr>year = 2008, month = 1, day = 28\<rparr> = 0"
    by (simp_all add: date_eval)
  show ?thesis
    using ctx l w7 n cal im
    by (intro exI [of _ ctx]) (simp add: c0 c4 make_cal_day_def)
qed

theorem gencal_february_2008_witness:
  "get_events_by_day [concert] = Inr ((\<lambda>d. [])(\<lparr>year = 2008, month = 1, day = 30\<rparr> :=
      [\<lparr>title = PyStr ''Concert at Huckelberries'', url = PyStr ''/foo/2'',
        css_class = PyStr ''concert'',
        timestamp = PyDatetime \<lparr>year = 2008, month = 1, day = 30\<rparr> 14 0 0\<rparr>])) \<and>
   (\<exists>ctx. gencal \<lparr>year = 2008, month = 2, day = 14\<rparr> [concert] = Inr ctx \<and>
      length (month_cal ctx) = 5 \<and> length (cells ctx) = 35 \<and>
      \<not> in_month (cells ctx ! 0) \<and> in_month (cells ctx ! 4))"
proof -
  have e: "get_events_by_day [concert] = Inr ((\<lambda>d. [])(\<lparr>year = 2008, month = 1, day = 30\<rparr> :=
      [\<lparr>title = PyStr ''Concert at Huckelberries'', url = PyStr ''/foo/2'',
        css_class = PyStr ''concert'',
        timestamp = PyDatetime \<lparr>year = 2008, month = 1, day = 30\<rparr> 14 0 0\<rparr>]))"
    by (simp add: get_events_by_day_def event_entry_concert)
  from gencal_february_2008 [OF e, of 14] e show ?thesis by blast
qed

text \<open>
  C8 (as amended).  For every input whose month is not in 1..12, \<open>gencal\<close> fails and
  returns no result.  The events are grouped before the month is looked at: when the grouping
  succeeds, the failure is \<^verbatim>\<open>calendar.IllegalMonthError\<close> (the invalid-date error of the
  code); when an item is malformed, the failure is the error of the grouping.
\<close>

theorem gencal_bad_month:
  assumes "\<not> (1 \<le> month d \<and> month d \<le> 12)"
  shows "(\<exists>e. gencal d items = Inl e) \<and>
    (\<forall>ebd. get_events_by_day items = Inr ebd \<longrightarrow> gencal d items = Inl IllegalMonthError) \<and>
    (\<forall>e. get_events_by_day items = Inl e \<longrightarrow> gencal d items = Inl e)"
  using get_iterable_days_bad_month [OF assms, of "year d"]
  by (cases "get_events_by_day items") (simp_all add: gencal_def)

theorem gencal_bad_month_witness:
  "\<not> (1 \<le> month \<lparr>year = 2008, month = 13, day = 1\<rparr> \<and>
      month \<lparr>year = 2008, month = 13, day = 1\<rparr> \<le> 12) \<and>
   (\<exists>ebd. get_events_by_day [concert] = Inr ebd) \<and>
   gencal \<lparr>year = 2008, month = 13, day = 1\<rparr> [concert] = Inl IllegalMonthError \<and>
   gencal \<lparr>year = 2008, month = 0, day = 1\<rparr> [] = Inl IllegalMonthError"
  using gencal_bad_month [of "\<lparr>year = 2008, month = 13, day = 1\<rparr>" "[concert]"]
    gencal_bad_month [of "\<lparr>year = 2008, month = 0, day = 1\<rparr>" "[]"]
  by (simp add: get_events_by_day_def event_entry_concert)

text \<open>
  C8 as stated fails when the month is invalid and an item is malformed as well: the item is
  met first, and the error is the \<^verbatim>\<open>KeyError\<close> of its missing key, not the invalid-date
  error.
\<close>

theorem gencal_bad_month_event_error_counterexample:
  "gencal \<lparr>year = 2008, month = 13, day = 1\<rparr> [Map.empty] = Inl KeyError \<and>
   gencal \<lparr>year = 2008, month = 0, day = 1\<rparr> [Map.empty] = Inl KeyError"
  by (simp add: gencal_def get_events_by_day_def event_entry_def getitem_def)


text \<open>
  C9 (as amended).  When an item has no usable \<^verbatim>\<open>'day'\<close> (the key is missing, the value has
  no date attributes, a field of the date does not fit a C int, or the fields are no date
  between the years 1 and 9999), \<open>gencal\<close> fails with the error of the grouping, one of
  \<^verbatim>\<open>KeyError\<close>, \<^verbatim>\<open>AttributeError\<close>, \<^verbatim>\<open>OverflowError\<close> and \<^verbatim>\<open>ValueError\<close>; when the items before
  the first such item are all grouped, it is the error that \<open>day_error\<close> gives for that item.
  No malformed item is dropped: when \<open>gencal\<close> succeeds, every item has a usable day, an
  item has an entry in a cell exactly when its date is the date of that cell, and an item
  whose date is the date of no cell is shown in no cell.
\<close>

theorem malformed_event_fails:
  "((\<exists>ev \<in> set items. day_error ev \<noteq> None) \<longrightarrow>
      (\<exists>e. get_events_by_day items = Inl e \<and> gencal d items = Inl e \<and>
           (e = KeyError \<or> e = AttributeError \<or> e = ValueError \<or> e = OverflowError))) \<and>
   (\<forall>xs ev ys e. items = xs @ ev # ys \<and> (\<forall>x \<in> set xs. \<exists>r. event_entry x = Inr r) \<and>
        day_error ev = Some e \<longrightarrow> gencal d items = Inl e) \<and>
   (\<forall>ctx. gencal d items = Inr ctx \<longrightarrow>
      (\<forall>ev \<in> set items. day_error ev = None \<and> (\<exists>dd. item_date ev = Some dd) \<and>
         (\<forall>c \<in> set (cells ctx).
            (\<exists>g \<in> set (event c). is_entry_of g ev) \<longleftrightarrow> item_date ev = Some (cell_day c)) \<and>
         ((\<forall>c \<in> set (cells ctx). item_date ev \<noteq> Some (cell_day c)) \<longrightarrow>
            (\<forall>c \<in> set (cells ctx). \<forall>g \<in> set (event c). \<not> is_entry_of g ev))))"
proof (intro conjI)
  show "(\<exists>ev \<in> set items. day_error ev \<noteq> None) \<longrightarrow>
      (\<exists>e. get_events_by_day items = Inl e \<and> gencal d items = Inl e \<and>
           (e = KeyError \<or> e = AttributeError \<or> e = ValueError \<or> e = OverflowError))"
  proof
    assume "\<exists>ev \<in> set items. day_error ev \<noteq> None"
    then obtain ev where "ev \<in> set items" "day_error ev \<noteq> None" by blast
    from get_events_by_day_bad_day [OF this] obtain e where
      e: "get_events_by_day items = Inl e"
        "e = KeyError \<or> e = AttributeError \<or> e = ValueError \<or> e = OverflowError"
      by blast
    with gencal_events_error [OF e(1), of d]
    show "\<exists>e. get_events_by_day items = Inl e \<and> gencal d items = Inl e \<and>
           (e = KeyError \<or> e = AttributeError \<or> e = ValueError \<or> e = OverflowError)" by blast
  qed
  show "\<forall>xs ev ys e. items = xs @ ev # ys \<and> (\<forall>x \<in> set xs. \<exists>r. event_entry x = Inr r) \<and>
        day_error ev = Some e \<longrightarrow> gencal d items = Inl e"
  proof (intro allI impI)
    fix xs ev ys e
    assume a: "items = xs @ ev # ys \<and> (\<forall>x \<in> set xs. \<exists>r. event_entry x = Inr r) \<and>
        day_error ev = Some e"
    then have "event_entry ev = Inl e" by (intro event_entry_day_error) simp
    with a have "get_events_by_day items = Inl e"
      unfolding get_events_by_day_def by (simp add: group_events_first_error)
    then show "gencal d items = Inl e" by (rule gencal_events_error)
  qed
  show "\<forall>ctx. gencal d items = Inr ctx \<longrightarrow>
      (\<forall>ev \<in> set items. day_error ev = None \<and> (\<exists>dd. item_date ev = Some dd) \<and>
         (\<forall>c \<in> set (cells ctx).
            (\<exists>g \<in> set (event c). is_entry_of g ev) \<longleftrightarrow> item_date ev = Some (cell_day c)) \<and>
         ((\<forall>c \<in> set (cells ctx). item_date ev \<noteq> Some (cell_day c)) \<longrightarrow>
            (\<forall>c \<in> set (cells ctx). \<forall>g \<in> set (event c). \<not> is_entry_of g ev)))"
  proof (intro allI impI ballI)
    fix ctx ev
    assume g: "gencal d items = Inr ctx" and ev: "ev \<in> set items"
    have shown: "(\<exists>g \<in> set (event c). is_entry_of g ev) \<longleftrightarrow> item_date ev = Some (cell_day c)"
      if c: "c \<in> set (cells ctx)" for c
    proof
      assume "\<exists>g \<in> set (event c). is_entry_of g ev"
      then obtain g' where "g' \<in> set (event c)" "is_entry_of g' ev" by blast
      from entry_in_cell_date [OF g c this] show "item_date ev = Some (cell_day c)" .
    next
      assume "item_date ev = Some (cell_day c)"
      with ev have "ev \<in> set (filter (\<lambda>ev. item_date ev = Some (cell_day c)) items)" by simp
      from list_all2_partner [OF cell_events [OF g c] this]
      show "\<exists>g \<in> set (event c). is_entry_of g ev" .
    qed
    from gencal_items_dated [OF g ev] shown
    show "day_error ev = None \<and> (\<exists>dd. item_date ev = Some dd) \<and>
         (\<forall>c \<in> set (cells ctx).
            (\<exists>g \<in> set (event c). is_entry_of g ev) \<longleftrightarrow> item_date ev = Some (cell_day c)) \<and>
         ((\<forall>c \<in> set (cells ctx). item_date ev \<noteq> Some (cell_day c)) \<longrightarrow>
            (\<forall>c \<in> set (cells ctx). \<forall>g \<in> set (event c). \<not> is_entry_of g ev))"
      by blast
  qed
qed

theorem malformed_event_fails_witness:
  "(\<exists>ev \<in> set [concert, Map.empty]. day_error ev \<noteq> None) \<and>
   gencal \<lparr>year = 2008, month = 2, day = 1\<rparr> [concert, Map.empty] = Inl KeyError \<and>
   day_error [''day'' \<mapsto> PyStr ''2008-01-30''] = Some AttributeError \<and>
   gencal \<lparr>year = 2008, month = 2, day = 1\<rparr> [concert, [''day'' \<mapsto> PyStr ''2008-01-30'']] =
     Inl AttributeError \<and>
   day_error [''day'' \<mapsto> PyDate \<lparr>year = 2008, month = 2, day = 30\<rparr>] = Some ValueError \<and>
   gencal \<lparr>year = 2008, month = 2, day = 1\<rparr>
     [concert, [''day'' \<mapsto> PyDate \<lparr>year = 2008, month = 2, day = 30\<rparr>]] = Inl ValueError \<and>
   day_error [''day'' \<mapsto> PyDate \<lparr>year = 2147483648, month = 1, day = 1\<rparr>] = Some OverflowError \<and>
   gencal \<lparr>year = 2008, month = 2, day = 1\<rparr>
     [concert, [''day'' \<mapsto> PyDate \<lparr>year = 2147483648, month = 1, day = 1\<rparr>]] = Inl OverflowError \<and>
   (\<exists>ctx. gencal \<lparr>year = 2008, month = 2, day = 1\<rparr> [concert, picnic] = Inr ctx \<and>
      (\<exists>c \<in> set (cells ctx). item_date concert = Some (cell_day c) \<and>
         (\<exists>g \<in> set (event c). is_entry_of g concert)) \<and>
      (\<forall>c \<in> set (cells ctx). item_date picnic \<noteq> Some (cell_day c)) \<and>
      (\<forall>c \<in> set (cells ctx). \<forall>g \<in> set (event c). \<not> is_entry_of g picnic))"
proof -
  let ?d = "\<lparr>year = 2008, month = 2, day = 1\<rparr>"
  let ?day = "\<lparr>year = 2008, month = 1, day = 30\<rparr>"
  let ?text = "[''day'' \<mapsto> PyStr ''2008-01-30'']"
  let ?feb30 = "[''day'' \<mapsto> PyDate \<lparr>year = 2008, month = 2, day = 30\<rparr>]"
  let ?huge = "[''day'' \<mapsto> PyDate \<lparr>year = 2147483648, month = 1, day = 1\<rparr>]"
  have de: "day_error Map.empty = Some KeyError" "day_error ?text = Some AttributeError"
    "day_error ?feb30 = Some ValueError" "day_error ?huge = Some OverflowError"
    by (simp_all add: day_error_def item_date_def fits_c_int_def lib_days_in_month_def is_leap_def)
  have pre: "\<forall>x \<in> set [concert]. \<exists>r. event_entry x = Inr r"
    by (simp add: event_entry_concert)
  have fail: "gencal ?d [concert, ev] = Inl e" if "day_error ev = Some e" for ev e
    using malformed_event_fails [of "[concert, ev]" ?d] pre that
    by (elim conjE allE [of _ "[concert]"] allE [of _ ev] allE [of _ "[]"] allE [of _ e]) simp
  have "\<exists>ebd. get_events_by_day [concert, picnic] = Inr ebd"
    by (simp add: get_events_by_day_def event_entry_concert event_entry_picnic)
  then obtain ebd where e: "get_events_by_day [concert, picnic] = Inr ebd" ..
  from gencal_valid_cells [of ?d, OF _ _ _ e] valid_2008(2) obtain ctx where
    ctx: "gencal ?d [concert, picnic] = Inr ctx"
    and c: "cells ctx = map (make_cal_day ebd 2) (grid_days 2008 2)" by auto
  have "grid_date 2008 2 2 = ?day" by (simp add: date_eval)
  moreover have "grid_date 2008 2 2 \<in> set (grid_days 2008 2)"
    unfolding grid_days_set by (intro exI [of _ 2]) (simp add: grid_2008_2)
  ultimately have in_cells: "make_cal_day ebd 2 ?day \<in> set (cells ctx)"
    unfolding c by simp
  have cd: "item_date concert = Some (cell_day (make_cal_day ebd 2 ?day))"
    by (simp add: item_date_examples make_cal_day_def)
  have np: "\<forall>c \<in> set (cells ctx). item_date picnic \<noteq> Some (cell_day c)"
    unfolding c using picnic_not_in_grid
    by (auto simp: item_date_examples make_cal_day_def)
  note t = malformed_event_fails [of "[concert, picnic]" ?d]
  from t ctx have on: "\<forall>ev \<in> set [concert, picnic].
         (\<forall>c \<in> set (cells ctx).
            (\<exists>g \<in> set (event c). is_entry_of g ev) \<longleftrightarrow> item_date ev = Some (cell_day c)) \<and>
         ((\<forall>c \<in> set (cells ctx). item_date ev \<noteq> Some (cell_day c)) \<longrightarrow>
            (\<forall>c \<in> set (cells ctx). \<forall>g \<in> set (event c). \<not> is_entry_of g ev))"
    by blast
  from on in_cells cd have 1: "\<exists>c \<in> set (cells ctx). item_date concert = Some (cell_day c) \<and>
         (\<exists>g \<in> set (event c). is_entry_of g concert)"
    by (intro bexI [of _ "make_cal_day ebd 2 ?day"]) auto
  from on np have 2: "\<forall>c \<in> set (cells ctx). \<forall>g \<in> set (event c). \<not> is_entry_of g picnic"
    by simp
  have 0: "\<exists>ev \<in> set [concert, Map.empty]. day_error ev \<noteq> None" using de(1) by simp
  from 0 de fail [OF de(1)] fail [OF de(2)] fail [OF de(3)] fail [OF de(4)] ctx 1 np 2
  show ?thesis by blast
qed

text \<open>
  C9 as stated fails in its last part: an item of June 2008 is well-formed, \<open>gencal\<close> for
  February 2008 succeeds, and the grid shows no entry at all.
\<close>

theorem event_not_shown_counterexample:
  "map_sum id shown_events (gencal \<lparr>year = 2008, month = 2, day = 1\<rparr> [picnic]) = Inr []"
proof -
  let ?d = "\<lparr>year = 2008, month = 2, day = 1\<rparr>"
  let ?ebd = "(\<lambda>d. [])(\<lparr>year = 2008, month = 6, day = 15\<rparr> :=
      [\<lparr>title = PyStr ''Picnic'', url = PyNone, css_class = PyStr ''outing'',
        timestamp = PyDate \<lparr>year = 2008, month = 6, day = 15\<rparr>\<rparr>])"
  have e: "get_events_by_day [picnic] = Inr ?ebd"
    by (simp add: get_events_by_day_def event_entry_picnic)
  from gencal_valid_cells [of ?d, OF _ _ _ e] valid_2008(2) obtain ctx where
    ctx: "gencal ?d [picnic] = Inr ctx"
    and c: "cells ctx = map (make_cal_day ?ebd 2) (grid_days 2008 2)" by auto
  have "\<forall>dt \<in> set (grid_days 2008 2). ?ebd dt = []"
    using picnic_not_in_grid by auto
  then have "shown_events ctx = []"
    unfolding shown_events_def c by (simp add: make_cal_day_def comp_def)
  with ctx show ?thesis by simp
qed

text \<open>
  C10.  An item that the grouping accepts (it has the four keys and a valid date) and whose
  date is none of the enumerated days changes nothing: with it or without it, \<open>gencal\<close>
  returns the same result, so it raises no error of its own; and in a grid that is returned
  no cell has its date and no cell shows an entry of it.
\<close>

theorem event_outside_grid_ignored:
  assumes "event_entry ev = Inr (dd, g)"
    and "get_iterable_days (year d) (month d) = Inr ds" and "dd \<notin> set ds"
  shows "gencal d (xs @ ev # ys) = gencal d (xs @ ys) \<and>
    (\<forall>ctx. gencal d (xs @ ev # ys) = Inr ctx \<longrightarrow>
       (\<forall>c \<in> set (cells ctx). cell_day c \<noteq> dd \<and> (\<forall>g' \<in> set (event c). \<not> is_entry_of g' ev)))"
proof
  show "gencal d (xs @ ev # ys) = gencal d (xs @ ys)"
  proof (cases "get_events_by_day (xs @ ys)")
    case (Inl e)
    with get_events_by_day_insert [OF assms(1), of xs ys] show ?thesis
      by (simp add: gencal_def)
  next
    case (Inr ebd)
    with get_events_by_day_insert [OF assms(1), of xs ys] obtain ebd' where
      e': "get_events_by_day (xs @ ev # ys) = Inr ebd'" and eq: "\<forall>d. d \<noteq> dd \<longrightarrow> ebd' d = ebd d"
      by auto
    from eq assms(3) have "\<forall>d \<in> set ds. ebd' d = ebd d" by auto
    from week_loop_cong_days [OF this]
    have "week_loop ebd' (month d) ds ([], []) = week_loop ebd (month d) ds ([], [])" .
    then show ?thesis by (simp add: gencal_def Inr e' assms(2))
  qed
  show "\<forall>ctx. gencal d (xs @ ev # ys) = Inr ctx \<longrightarrow>
       (\<forall>c \<in> set (cells ctx). cell_day c \<noteq> dd \<and> (\<forall>g' \<in> set (event c). \<not> is_entry_of g' ev))"
  proof (intro allI impI ballI conjI)
    fix ctx c
    assume g: "gencal d (xs @ ev # ys) = Inr ctx" and c: "c \<in> set (cells ctx)"
    from get_iterable_days_Inr(1) [OF gencal_Inr_D(1) [OF g] assms(2)]
    have ds: "ds = grid_days (year d) (month d)" .
    from cell_of_gencal [OF g c] have "cell_day c \<in> set ds" unfolding ds by blast
    with assms(3) show ne: "cell_day c \<noteq> dd" by auto
    fix g' assume g': "g' \<in> set (event c)"
    show "\<not> is_entry_of g' ev"
    proof
      assume "is_entry_of g' ev"
      from entry_in_cell_date [OF g c g' this] event_entry_Inr(1) [OF assms(1)] ne
      show False by simp
    qed
  qed
qed

theorem event_outside_grid_ignored_witness:
  "event_entry picnic = Inr (\<lparr>year = 2008, month = 6, day = 15\<rparr>,
      \<lparr>title = PyStr ''Picnic'', url = PyNone, css_class = PyStr ''outing'',
       timestamp = PyDate \<lparr>year = 2008, month = 6, day = 15\<rparr>\<rparr>) \<and>
   get_iterable_days 2008 2 = Inr (grid_days 2008 2) \<and>
   \<lparr>year = 2008, month = 6, day = 15\<rparr> \<notin> set (grid_days 2008 2) \<and>
   gencal \<lparr>year = 2008, month = 2, day = 1\<rparr> ([concert] @ picnic # []) =
   gencal \<lparr>year = 2008, month = 2, day = 1\<rparr> ([concert] @ []) \<and>
   (\<exists>ctx. gencal \<lparr>year = 2008, month = 2, day = 1\<rparr> ([concert] @ []) = Inr ctx)"
proof -
  have g: "get_iterable_days 2008 2 = Inr (grid_days 2008 2)"
    by (rule get_iterable_days_valid [OF valid_2008(2)]) simp
  have e: "get_events_by_day [concert] =
      Inr ((\<lambda>d. [])(fst (projr (event_entry concert)) := [snd (projr (event_entry concert))]))"
    by (simp add: get_events_by_day_def event_entry_concert)
  have "\<exists>ctx. gencal \<lparr>year = 2008, month = 2, day = 1\<rparr> [concert] = Inr ctx"
    using gencal_valid_cells [of "\<lparr>year = 2008, month = 2, day = 1\<rparr>", OF _ _ _ e] valid_2008(2)
    by auto
  then show ?thesis
    using event_outside_grid_ignored [of picnic _ _ "\<lparr>year = 2008, month = 2, day = 1\<rparr>"
      "grid_days 2008 2" "[concert]" "[]", OF event_entry_picnic] g picnic_not_in_grid
    by (simp add: event_entry_picnic)
qed

end
